theory Spec2Isabelle
  imports Complex_Main "HOL-Library.Multiset"
begin

section \<open>Object store shared by both programs\<close>

text \<open>
  Both programs build the hydra from JavaScript objects that point at each other
  (\<open>children\<close> downwards, \<open>parent\<close> upwards).  An object reference is an address,
  the store is the list of all objects ever allocated, and allocating appends to it, so
  the address of a new object is the length of the store at that moment.  Nothing is ever
  freed.  An array held in \<open>children\<close> is a list value of the node: no two nodes of
  either program ever hold the same array object.
\<close>

type_synonym addr = nat

datatype error = TypeError | RangeError

record node =
  nid :: int
  children :: "addr list"
  parent :: "addr option"

text \<open>\<open>class Node\<close> of index.js: id, children, parent, x, y, width.\<close>

record cnode = node +
  xpos :: rat
  ypos :: rat
  width :: rat

text \<open>The object literal of script.js: id, children, parent, depth.\<close>

record snode = node +
  depth :: nat

text \<open>The variables of index.js that the engine reads or writes.\<close>

record cstate =
  heap :: "cnode list"
  root :: addr
  step :: nat
  idCounter :: int
  reducedGrowth :: bool

text \<open>The variables of script.js: \<open>hydra\<close> is \<open>null\<close> until \<open>setHydra\<close> runs.\<close>

record sstate =
  sheap :: "snode list"
  hydra :: "addr option"
  moveCount :: nat
  depthCounters :: "nat \<rightharpoonup> nat"
  nextId :: int

section \<open>Tree model\<close>

text \<open>index.js: \<open>node.children.length === 0 && node !== root\<close>.\<close>

definition isLeaf :: "cstate \<Rightarrow> addr \<Rightarrow> bool" where
  "isLeaf s n \<longleftrightarrow> length (children (heap s ! n)) = 0 \<and> n \<noteq> root s"

text \<open>script.js: \<open>n.children.length === 0\<close> and \<open>n.parent === null\<close>.\<close>

definition isLeafS :: "snode list \<Rightarrow> addr \<Rightarrow> bool" where
  "isLeafS h n \<longleftrightarrow> length (children (h ! n)) = 0"

definition isRootS :: "snode list \<Rightarrow> addr \<Rightarrow> bool" where
  "isRootS h n \<longleftrightarrow> parent (h ! n) = None"


section \<open>Loops and address trees\<close>

text \<open>
  \<open>for (const c of xs) body\<close>: the body runs on each element in order and an exception
  leaves the loop at once.  The arrays iterated by the code below are never written
  while they are iterated (the bodies write only to other nodes or to display fields),
  so reading the array once at loop entry gives the same elements.
\<close>

fun forEach :: "'b list \<Rightarrow> ('s \<Rightarrow> 'b \<Rightarrow> error + 's) \<Rightarrow> 's \<Rightarrow> error + 's" where
  "forEach [] body s = Inr s"
| "forEach (c # cs) body s =
     (case body s c of Inl e \<Rightarrow> Inl e | Inr s' \<Rightarrow> forEach cs body s')"

text \<open>
  A tree of addresses describes which part of the store is a tree: \<open>reprT h t\<close> says
  that every node of \<open>t\<close> is allocated in \<open>h\<close> and that its \<open>children\<close> array holds
  the roots of its subtrees, in order; \<open>parentsOk h t\<close> that every child in \<open>t\<close>
  points back to its parent.
\<close>

datatype atree = AT (rootA: addr) (subs: "atree list")

fun reprT :: "('a node_scheme) list \<Rightarrow> atree \<Rightarrow> bool" where
  "reprT h (AT a ts) \<longleftrightarrow>
     a < length h \<and> children (h ! a) = map rootA ts \<and> (\<forall>t \<in> set ts. reprT h t)"

fun parentsOk :: "('a node_scheme) list \<Rightarrow> atree \<Rightarrow> bool" where
  "parentsOk h (AT a ts) \<longleftrightarrow>
     (\<forall>t \<in> set ts. parent (h ! rootA t) = Some a \<and> parentsOk h t)"

fun addrs :: "atree \<Rightarrow> addr list" where
  "addrs (AT a ts) = a # concat (map addrs ts)"

fun height :: "atree \<Rightarrow> nat" where
  "height (AT a ts) = foldr (\<lambda>t m. max (Suc (height t)) m) ts 0"

text \<open>The shape of a tree forgets the addresses and keeps the child order.\<close>

datatype tree = T (kidsT: "tree list")

fun shape :: "atree \<Rightarrow> tree" where
  "shape (AT a ts) = T (map shape ts)"

text \<open>
  \<open>wfT h r t\<close>: the store holds the tree \<open>t\<close> rooted at \<open>r\<close>; no node occurs twice,
  every child points to its parent and the root has none.
\<close>

definition wfT :: "('a node_scheme) list \<Rightarrow> addr \<Rightarrow> atree \<Rightarrow> bool" where
  "wfT h r t \<longleftrightarrow>
     rootA t = r \<and> reprT h t \<and> parentsOk h t \<and> distinct (addrs t) \<and> parent (h ! r) = None"

text \<open>
  \<open>relabel b t\<close> is \<open>t\<close> with its nodes renumbered \<open>b, b + 1, \<dots>\<close> in pre-order: the
  addresses a copy of \<open>t\<close> gets when its nodes are allocated in that order from a store
  of length \<open>b\<close>.
\<close>

fun relabel :: "nat \<Rightarrow> atree \<Rightarrow> atree"
  and relabels :: "nat \<Rightarrow> atree list \<Rightarrow> atree list" where
  "relabel b (AT a ts) = AT b (relabels (Suc b) ts)"
| "relabels b [] = []"
| "relabels b (t # ts) = relabel b t # relabels (b + length (addrs t)) ts"

section \<open>index.js: nodes, deep copy, layout pass\<close>

definition hSpacing :: rat where "hSpacing = 40"
definition vSpacing :: rat where "vSpacing = 80"
definition radius :: rat where "radius = 10"

text \<open>\<open>return idCounter++\<close>.\<close>

definition newId :: "cstate \<Rightarrow> int \<times> cstate" where
  "newId s = (idCounter s, s\<lparr>idCounter := idCounter s + 1\<rparr>)"

text \<open>
  \<open>new Node(id, children)\<close>: the fields are set, then every given child gets this node
  as parent.
\<close>

definition new_Node :: "cnode list \<Rightarrow> int \<Rightarrow> addr list \<Rightarrow> cnode list \<times> addr" where
  "new_Node h ident kids =
     (let this = length h;
          h1 = h @ [\<lparr>nid = ident, children = kids, parent = None,
                     xpos = 0, ypos = 0, width = 0\<rparr>]
      in (fold (\<lambda>child hh. hh[child := (hh ! child)\<lparr>parent := Some this\<rparr>]) kids h1, this))"

text \<open>\<open>n.children.push(c)\<close>.\<close>

definition push_child :: "('a node_scheme) list \<Rightarrow> addr \<Rightarrow> addr \<Rightarrow> ('a node_scheme) list" where
  "push_child h n c = h[n := (h ! n)\<lparr>children := children (h ! n) @ [c]\<rparr>]"

text \<open>
  \<open>deepCopy(node, newParent)\<close>.  The first argument bounds the depth of nested calls:
  a call that would exceed it ends as the engine's stack overflow does, in a
  \<open>RangeError\<close>.
\<close>

fun deepCopy :: "nat \<Rightarrow> cstate \<Rightarrow> addr \<Rightarrow> addr option \<Rightarrow> error + (cstate \<times> addr)" where
  "deepCopy 0 s node newParent = Inl RangeError"
| "deepCopy (Suc fuel) s node newParent =
     (let (ident, s1) = newId s;
          (h2, newNode) = new_Node (heap s1) ident [];
          s3 = s1\<lparr>heap := h2[newNode := (h2 ! newNode)\<lparr>parent := newParent\<rparr>]\<rparr>
      in case forEach (children (heap s3 ! node))
                (\<lambda>s' child.
                    case deepCopy fuel s' child (Some newNode) of
                      Inl e \<Rightarrow> Inl e
                    | Inr (s'', newChild) \<Rightarrow>
                        Inr (s''\<lparr>heap := push_child (heap s'') newNode newChild\<rparr>))
                s3 of
           Inl e \<Rightarrow> Inl e
         | Inr s4 \<Rightarrow> Inr (s4, newNode))"

text \<open>
  \<open>relabelTree()\<close>: the nested \<open>traverse\<close> numbers the nodes in pre-order with the
  counter \<open>next\<close>, which becomes \<open>idCounter\<close>.
\<close>

fun traverseRelabel :: "nat \<Rightarrow> cnode list \<times> int \<Rightarrow> addr \<Rightarrow> error + cnode list \<times> int" where
  "traverseRelabel 0 hn node = Inl RangeError"
| "traverseRelabel (Suc fuel) hn node =
     (let h1 = (fst hn)[node := (fst hn ! node)\<lparr>nid := snd hn\<rparr>]
      in forEach (children (h1 ! node)) (\<lambda>acc c. traverseRelabel fuel acc c) (h1, snd hn + 1))"

definition relabelTree :: "nat \<Rightarrow> cstate \<Rightarrow> error + cstate" where
  "relabelTree fuel s =
     (case traverseRelabel fuel (heap s, 0) (root s) of
        Inl e \<Rightarrow> Inl e
      | Inr (h, next) \<Rightarrow> Inr (s\<lparr>heap := h, idCounter := next\<rparr>))"

text \<open>\<open>computeWidths(node)\<close>: the loop state is the store and the running \<open>sum\<close> (here \<open>sumw\<close>).\<close>

fun computeWidths :: "nat \<Rightarrow> cnode list \<Rightarrow> addr \<Rightarrow> error + cnode list" where
  "computeWidths 0 h node = Inl RangeError"
| "computeWidths (Suc fuel) h node =
     (case forEach (children (h ! node))
             (\<lambda>acc child.
                 case computeWidths fuel (fst acc) child of
                   Inl e \<Rightarrow> Inl e
                 | Inr h' \<Rightarrow> Inr (h', snd acc + width (h' ! child)))
             (h, 0) of
        Inl e \<Rightarrow> Inl e
      | Inr (h', sumw) \<Rightarrow>
          Inr (h'[node := (h' ! node)\<lparr>width :=
                 (if length (children (h' ! node)) = 0 then hSpacing else max hSpacing sumw)\<rparr>]))"

text \<open>
  \<open>placeNodes(node, x, y)\<close>: the loop state is the store and \<open>currentX\<close>.  The numbers
  are JavaScript doubles; every value computed here from widths that are sums of
  \<open>hSpacing\<close> is a multiple of 20, which doubles represent exactly up to \<open>2^53\<close>, so the
  rationals give the same values.
\<close>

fun placeNodes :: "nat \<Rightarrow> cnode list \<Rightarrow> addr \<Rightarrow> rat \<Rightarrow> rat \<Rightarrow> error + cnode list" where
  "placeNodes 0 h node x y = Inl RangeError"
| "placeNodes (Suc fuel) h node x y =
     (let h1 = h[node := (h ! node)\<lparr>xpos := x, ypos := y\<rparr>];
          sumChildWidth = fold (\<lambda>child acc. acc + width (h1 ! child)) (children (h1 ! node)) 0
      in case forEach (children (h1 ! node))
                (\<lambda>acc child.
                    case placeNodes fuel (fst acc) child
                           (snd acc + width (fst acc ! child) / 2) (y - vSpacing) of
                      Inl e \<Rightarrow> Inl e
                    | Inr h' \<Rightarrow> Inr (h', snd acc + width (h' ! child)))
                (h1, x - sumChildWidth / 2) of
           Inl e \<Rightarrow> Inl e
         | Inr (h', currentX) \<Rightarrow> Inr h')"

text \<open>\<open>getAllNodes()\<close>: the nodes reachable from the root, in pre-order.\<close>

fun traverseCollect :: "nat \<Rightarrow> cnode list \<Rightarrow> addr list \<Rightarrow> addr \<Rightarrow> error + addr list" where
  "traverseCollect 0 h list node = Inl RangeError"
| "traverseCollect (Suc fuel) h list node =
     forEach (children (h ! node)) (\<lambda>acc c. traverseCollect fuel h acc c) (list @ [node])"

definition getAllNodes :: "nat \<Rightarrow> cstate \<Rightarrow> error + addr list" where
  "getAllNodes fuel s = traverseCollect fuel (heap s) [] (root s)"

text \<open>
  \<open>redraw()\<close>: what it writes to the nodes and to \<open>idCounter\<close>.  Its drawing calls
  write to the canvas only, and the recursions it makes for drawing and counting
  (\<open>drawTree\<close>, \<open>getAllNodes\<close>) nest exactly as deep as \<open>relabelTree\<close> does.
\<close>

definition redraw :: "nat \<Rightarrow> cstate \<Rightarrow> error + cstate" where
  "redraw fuel s =
     (case relabelTree fuel s of
        Inl e \<Rightarrow> Inl e
      | Inr s1 \<Rightarrow>
          (case computeWidths fuel (heap s1) (root s1) of
             Inl e \<Rightarrow> Inl e
           | Inr h2 \<Rightarrow>
               (case placeNodes fuel h2 (root s1) 0 0 of
                  Inl e \<Rightarrow> Inl e
                | Inr h3 \<Rightarrow> Inr (s1\<lparr>heap := h3\<rparr>))))"

section \<open>index.js: the cut\<close>

text \<open>
  \<open>chop(leaf)\<close>.  \<open>P.children\<close> with \<open>P\<close> null and \<open>G.children\<close> with \<open>G\<close> null
  throw a \<open>TypeError\<close>.  The listener that \<open>chop\<close> removes once the root has no
  children is not part of the state.
\<close>

definition chop :: "nat \<Rightarrow> cstate \<Rightarrow> addr \<Rightarrow> error + cstate" where
  "chop fuel s leaf =
     (let s1 = s\<lparr>step := step s + 1\<rparr> in
      case parent (heap s1 ! leaf) of
        None \<Rightarrow> Inl TypeError
      | Some P \<Rightarrow>
          (let s2 = s1\<lparr>heap := (heap s1)[P := (heap s1 ! P)
                        \<lparr>children := filter (\<lambda>c. c \<noteq> leaf) (children (heap s1 ! P))\<rparr>]\<rparr>
           in case (if P \<noteq> root s2
                    then (let G = parent (heap s2 ! P);
                              N = (if reducedGrowth s2 then 1 else step s2)
                          in forEach [0..<N]
                               (\<lambda>s' i.
                                   case deepCopy fuel s' P G of
                                     Inl e \<Rightarrow> Inl e
                                   | Inr (s'', copy) \<Rightarrow>
                                       (case G of
                                          None \<Rightarrow> Inl TypeError
                                        | Some g \<Rightarrow>
                                            Inr (s''\<lparr>heap := push_child (heap s'') g copy\<rparr>)))
                               s2)
                    else Inr s2) of
                Inl e \<Rightarrow> Inl e
              | Inr s3 \<Rightarrow> redraw fuel s3))"

text \<open>
  The state when the page has loaded the script, before \<open>initHydra(3)\<close> runs: the
  root \<open>new Node(0)\<close> alone.
\<close>

definition initial :: cstate where
  "initial = \<lparr>heap = [\<lparr>nid = 0, children = [], parent = None, xpos = 0, ypos = 0, width = 0\<rparr>],
              root = 0, step = 0, idCounter = 0, reducedGrowth = False\<rparr>"

text \<open>\<open>initHydra(length)\<close>: the chain generator; the loop runs \<open>i\<close> from \<open>length - 1\<close> down to 1.\<close>

definition initHydra :: "nat \<Rightarrow> cstate \<Rightarrow> nat \<Rightarrow> error + cstate" where
  "initHydra fuel s len =
     (let s1 = s\<lparr>step := 0, idCounter := int len + 1\<rparr>;
          (h2, current) = fold (\<lambda>i (h, cur). new_Node h (int i) [cur]) (rev [1..<len])
                            (new_Node (heap s1) (int len) []);
          h3 = h2[root s1 := (h2 ! root s1)\<lparr>children := [current]\<rparr>];
          h4 = h3[hd (children (h3 ! root s1)) :=
                    (h3 ! hd (children (h3 ! root s1)))\<lparr>parent := Some (root s1)\<rparr>]
      in redraw fuel (s1\<lparr>heap := h4\<rparr>))"

text \<open>
  \<open>handleClick(e)\<close> for a click that is not a pan, at world coordinates \<open>(wx, wy)\<close>:
  the first leaf under the pointer is chopped.
\<close>

definition handleClick :: "nat \<Rightarrow> cstate \<Rightarrow> rat \<Rightarrow> rat \<Rightarrow> error + cstate" where
  "handleClick fuel s wx wy =
     (case getAllNodes fuel s of
        Inl e \<Rightarrow> Inl e
      | Inr nodes \<Rightarrow>
          (case find (\<lambda>n. isLeaf s n \<and>
                          (wx - xpos (heap s ! n)) * (wx - xpos (heap s ! n))
                          + (wy - ypos (heap s ! n)) * (wy - ypos (heap s ! n))
                          < radius * radius) nodes of
             None \<Rightarrow> Inr s
           | Some n \<Rightarrow> chop fuel s n))"

section \<open>script.js: nodes, clone, depths\<close>

definition NODE_R :: rat where "NODE_R = 14"
definition LEVEL_GAP :: rat where "LEVEL_GAP = 90"

text \<open>\<open>const newId = () => nextId++\<close>.\<close>

definition newIdS :: "sstate \<Rightarrow> int \<times> sstate" where
  "newIdS s = (nextId s, s\<lparr>nextId := nextId s + 1\<rparr>)"

text \<open>\<open>makeNode(children)\<close>.\<close>

definition makeNode :: "sstate \<Rightarrow> addr list \<Rightarrow> sstate \<times> addr" where
  "makeNode s kids =
     (let (ident, s1) = newIdS s;
          node = length (sheap s1);
          h1 = sheap s1 @ [\<lparr>nid = ident, children = kids, parent = None, depth = 0\<rparr>]
      in (s1\<lparr>sheap := fold (\<lambda>c hh. hh[c := (hh ! c)\<lparr>parent := Some node\<rparr>]) kids h1\<rparr>, node))"

text \<open>
  \<open>cloneSubtree(node)\<close> is its nested \<open>rec\<close>; the \<open>map\<close> it fills is never read.
\<close>

fun cloneSubtree :: "nat \<Rightarrow> sstate \<Rightarrow> addr \<Rightarrow> error + (sstate \<times> addr)" where
  "cloneSubtree 0 s n = Inl RangeError"
| "cloneSubtree (Suc fuel) s n =
     (let (ident, s1) = newIdS s;
          copy = length (sheap s1);
          s2 = s1\<lparr>sheap := sheap s1 @ [\<lparr>nid = ident, children = [], parent = None, depth = 0\<rparr>]\<rparr>
      in case forEach (children (sheap s2 ! n))
                (\<lambda>s' c.
                    case cloneSubtree fuel s' c of
                      Inl e \<Rightarrow> Inl e
                    | Inr (s'', cc) \<Rightarrow>
                        Inr (s''\<lparr>sheap := push_child
                               ((sheap s'')[cc := (sheap s'' ! cc)\<lparr>parent := Some copy\<rparr>]) copy cc\<rparr>))
                s2 of
           Inl e \<Rightarrow> Inl e
         | Inr s3 \<Rightarrow> Inr (s3, copy))"

text \<open>\<open>assignDepths(node, d)\<close>.\<close>

fun assignDepths :: "nat \<Rightarrow> snode list \<Rightarrow> addr \<Rightarrow> nat \<Rightarrow> error + snode list" where
  "assignDepths 0 h node d = Inl RangeError"
| "assignDepths (Suc fuel) h node d =
     (let h1 = h[node := (h ! node)\<lparr>depth := d\<rparr>]
      in forEach (children (h1 ! node)) (\<lambda>hh c. assignDepths fuel hh c (d + 1)) h1)"

text \<open>
  \<open>render()\<close> assigns the depths again and draws what \<open>computeLayout\<close> returns;
  \<open>afterMutation()\<close> assigns the depths, renders and updates the status line.  Both
  write nothing else to the state, and the recursions of \<open>computeLayout\<close> nest exactly
  as deep as \<open>assignDepths\<close> does.  \<open>assignDepths(null)\<close> throws.
\<close>

definition render :: "nat \<Rightarrow> sstate \<Rightarrow> error + sstate" where
  "render fuel s =
     (case hydra s of
        None \<Rightarrow> Inl TypeError
      | Some r \<Rightarrow>
          (case assignDepths fuel (sheap s) r 0 of
             Inl e \<Rightarrow> Inl e
           | Inr h \<Rightarrow> Inr (s\<lparr>sheap := h\<rparr>)))"

definition afterMutation :: "nat \<Rightarrow> sstate \<Rightarrow> error + sstate" where
  "afterMutation fuel s =
     (case hydra s of
        None \<Rightarrow> Inl TypeError
      | Some r \<Rightarrow>
          (case assignDepths fuel (sheap s) r 0 of
             Inl e \<Rightarrow> Inl e
           | Inr h \<Rightarrow> render fuel (s\<lparr>sheap := h\<rparr>)))"

section \<open>script.js: the cut\<close>

text \<open>
  \<open>cutLeaf(leaf)\<close>.  The two early returns leave the state as it is.
  \<open>depthCounters.get(d) || 0\<close> is the stored count, or 0 when there is none.
\<close>

definition cutLeaf :: "nat \<Rightarrow> sstate \<Rightarrow> addr \<Rightarrow> error + sstate" where
  "cutLeaf fuel s leaf =
     (if \<not> isLeafS (sheap s) leaf then Inr s
      else case parent (sheap s ! leaf) of
        None \<Rightarrow> Inr s
      | Some p \<Rightarrow>
          (let s1 = s\<lparr>sheap := (sheap s)[p := (sheap s ! p)
                        \<lparr>children := filter (\<lambda>c. c \<noteq> leaf) (children (sheap s ! p))\<rparr>]\<rparr>
           in if isRootS (sheap s1) p
              then afterMutation fuel (s1\<lparr>moveCount := moveCount s1 + 1\<rparr>)
              else
                (let g = parent (sheap s1 ! p);
                     d = depth (sheap s1 ! p);
                     prev = (case depthCounters s1 d of None \<Rightarrow> 0 | Some c \<Rightarrow> c);
                     k = prev + 1
                 in case forEach [0..<k]
                           (\<lambda>s' i.
                               case cloneSubtree fuel s' p of
                                 Inl e \<Rightarrow> Inl e
                               | Inr (s'', copy) \<Rightarrow>
                                   (case g of
                                      None \<Rightarrow> Inl TypeError
                                    | Some gg \<Rightarrow>
                                        Inr (s''\<lparr>sheap := push_child
                                               ((sheap s'')[copy := (sheap s'' ! copy)\<lparr>parent := g\<rparr>])
                                               gg copy\<rparr>)))
                           s1 of
                      Inl e \<Rightarrow> Inl e
                    | Inr s2 \<Rightarrow>
                        afterMutation fuel
                          (s2\<lparr>depthCounters := (depthCounters s2)(d \<mapsto> k),
                              moveCount := moveCount s2 + 1\<rparr>))))"

section \<open>script.js: generators and layout\<close>

text \<open>The state when the script starts: no node, no hydra, \<open>nextId = 1\<close>.\<close>

definition initialS :: sstate where
  "initialS = \<lparr>sheap = [], hydra = None, moveCount = 0, depthCounters = Map.empty, nextId = 1\<rparr>"

text \<open>\<open>balancedHydra(depth, branching)\<close>: its nested \<open>rec\<close> builds the children first.\<close>

fun balancedRec :: "nat \<Rightarrow> nat \<Rightarrow> sstate \<Rightarrow> sstate \<times> addr" where
  "balancedRec branching 0 s = makeNode s []"
| "balancedRec branching (Suc d) s =
     (let (s1, kids) = fold (\<lambda>i acc. let (s'', k) = balancedRec branching d (fst acc)
                                       in (s'', snd acc @ [k]))
                            [0..<branching] (s, [])
      in makeNode s1 kids)"

definition balancedHydra :: "nat \<Rightarrow> sstate \<Rightarrow> nat \<Rightarrow> nat \<Rightarrow> error + (sstate \<times> addr)" where
  "balancedHydra fuel s dep branching =
     (let (s1, r) = balancedRec branching dep s
      in case assignDepths fuel (sheap s1) r 0 of
           Inl e \<Rightarrow> Inl e
         | Inr h \<Rightarrow> Inr (s1\<lparr>sheap := h\<rparr>, r))"

text \<open>\<open>lineHydra(length)\<close>: the chain generator.\<close>

definition lineHydra :: "nat \<Rightarrow> sstate \<Rightarrow> nat \<Rightarrow> error + (sstate \<times> addr)" where
  "lineHydra fuel s len =
     (let (s0, r) = makeNode s [];
          (s1, cur) = fold (\<lambda>i acc.
                         let (s', child) = makeNode (fst acc) [];
                             h1 = (sheap s')[child := (sheap s' ! child)\<lparr>parent := Some (snd acc)\<rparr>]
                         in (s'\<lparr>sheap := push_child h1 (snd acc) child\<rparr>, child))
                       [0..<len] (s0, r)
      in case assignDepths fuel (sheap s1) r 0 of
           Inl e \<Rightarrow> Inl e
         | Inr h \<Rightarrow> Inr (s1\<lparr>sheap := h\<rparr>, r))"

text \<open>\<open>setHydra(root)\<close>.\<close>

definition setHydra :: "nat \<Rightarrow> sstate \<Rightarrow> addr \<Rightarrow> error + sstate" where
  "setHydra fuel s r =
     (case assignDepths fuel (sheap s) r 0 of
        Inl e \<Rightarrow> Inl e
      | Inr h \<Rightarrow> render fuel (s\<lparr>sheap := h, hydra := Some r, moveCount := 0,
                                 depthCounters := Map.empty\<rparr>))"

text \<open>
  \<open>computeLayout(root)\<close> for a drawing surface of width \<open>W\<close>.  Its first pass \<open>size\<close>
  fills \<open>sizeCache\<close>; its second pass \<open>place\<close> fills \<open>coords\<close>.  The numbers are
  JavaScript doubles.  A quotient that JavaScript would compute from an \<open>undefined\<close>
  cache entry or from a zero total ends the model with \<open>NotANumber\<close>; neither happens
  after \<open>size(root)\<close> has run on a tree.
\<close>

datatype layout_error = Thrown error | NotANumber

fun forEachL :: "'b list \<Rightarrow> ('s \<Rightarrow> 'b \<Rightarrow> layout_error + 's) \<Rightarrow> 's \<Rightarrow> layout_error + 's" where
  "forEachL [] body s = Inr s"
| "forEachL (c # cs) body s =
     (case body s c of Inl e \<Rightarrow> Inl e | Inr s' \<Rightarrow> forEachL cs body s')"

fun size_cached :: "nat \<Rightarrow> snode list \<Rightarrow> (addr \<rightharpoonup> nat) \<Rightarrow> addr \<Rightarrow> error + (addr \<rightharpoonup> nat) \<times> nat" where
  "size_cached 0 h sizeCache n = Inl RangeError"
| "size_cached (Suc fuel) h sizeCache n =
     (case sizeCache n of
        Some v \<Rightarrow> Inr (sizeCache, v)
      | None \<Rightarrow>
          (case (if length (children (h ! n)) \<noteq> 0
                 then forEach (children (h ! n))
                        (\<lambda>acc ch.
                            case size_cached fuel h (fst acc) ch of
                              Inl e \<Rightarrow> Inl e
                            | Inr (c', v) \<Rightarrow> Inr (c', snd acc + v))
                        (sizeCache, 0)
                 else Inr (sizeCache, 1)) of
             Inl e \<Rightarrow> Inl e
           | Inr (c', sz) \<Rightarrow> Inr (c'(n \<mapsto> sz), sz)))"

definition cachedTotal :: "(addr \<rightharpoonup> nat) \<Rightarrow> addr list \<Rightarrow> nat option" where
  "cachedTotal sizeCache chs =
     fold (\<lambda>ch acc. case (acc, sizeCache ch) of (Some a, Some v) \<Rightarrow> Some (a + v) | _ \<Rightarrow> None)
          chs (Some 0)"

fun place ::
  "nat \<Rightarrow> snode list \<Rightarrow> (addr \<rightharpoonup> nat) \<Rightarrow> rat \<Rightarrow> (addr \<rightharpoonup> rat \<times> rat) \<Rightarrow> addr \<Rightarrow> rat \<Rightarrow> rat \<Rightarrow> nat
   \<Rightarrow> layout_error + (addr \<rightharpoonup> rat \<times> rat)" where
  "place 0 h sizeCache W coords n xLeft xRight dep = Inl (Thrown RangeError)"
| "place (Suc fuel) h sizeCache W coords n xLeft xRight dep =
     (let x = (xLeft + xRight) / 2;
          y = 40 + of_nat dep * LEVEL_GAP;
          coords1 = coords(n \<mapsto> (x, y))
      in if length (children (h ! n)) = 0 then Inr coords1
         else
           (case cachedTotal sizeCache (children (h ! n)) of
              None \<Rightarrow> Inl NotANumber
            | Some totalSize \<Rightarrow>
                if totalSize = 0 then Inl NotANumber
                else
                  (case forEachL (children (h ! n))
                          (\<lambda>acc ch.
                              case sizeCache ch of
                                None \<Rightarrow> Inl NotANumber
                              | Some sz \<Rightarrow>
                                  (let w = (of_nat sz / of_nat totalSize) * (W - 120)
                                   in case place fuel h sizeCache W (fst acc) ch
                                             (snd acc) (snd acc + w) (dep + 1) of
                                        Inl e \<Rightarrow> Inl e
                                      | Inr cs \<Rightarrow> Inr (cs, snd acc + w)))
                          (coords1, xLeft) of
                     Inl e \<Rightarrow> Inl e
                   | Inr (cs, cur) \<Rightarrow> Inr cs)))"

definition computeLayout :: "nat \<Rightarrow> snode list \<Rightarrow> rat \<Rightarrow> addr \<Rightarrow> layout_error + (addr \<rightharpoonup> rat \<times> rat)" where
  "computeLayout fuel h W r =
     (case size_cached fuel h Map.empty r of
        Inl e \<Rightarrow> Inl (Thrown e)
      | Inr (sizeCache, sz) \<Rightarrow> place fuel h sizeCache W Map.empty r 60 (W - 60) 0)"

section \<open>Trees after a cut\<close>

text \<open>
  \<open>exciseT L t\<close> drops the subtrees rooted at \<open>L\<close> below the root of \<open>t\<close>;
  \<open>graft1 G c t\<close> appends \<open>c\<close> as the last child of \<open>G\<close>; \<open>subtreeAt P t\<close> finds the
  subtree rooted at \<open>P\<close>.
\<close>

fun exciseT :: "addr \<Rightarrow> atree \<Rightarrow> atree" where
  "exciseT L (AT a ts) = AT a (map (exciseT L) (filter (\<lambda>t. rootA t \<noteq> L) ts))"

fun graft1 :: "addr \<Rightarrow> atree \<Rightarrow> atree \<Rightarrow> atree" where
  "graft1 G c (AT a ts) = AT a (map (graft1 G c) ts @ (if a = G then [c] else []))"

fun subtrees :: "atree \<Rightarrow> atree list" where
  "subtrees (AT a ts) = AT a ts # concat (map subtrees ts)"

definition subtreeAt :: "addr \<Rightarrow> atree \<Rightarrow> atree option" where
  "subtreeAt P t = find (\<lambda>u. rootA u = P) (subtrees t)"

text \<open>
  \<open>graftCopies G u b n t\<close>: \<open>n\<close> copies of \<open>u\<close>, allocated one after the other from
  address \<open>b\<close>, appended to the children of \<open>G\<close>.
\<close>

fun graftCopies :: "addr \<Rightarrow> atree \<Rightarrow> nat \<Rightarrow> nat \<Rightarrow> atree \<Rightarrow> atree" where
  "graftCopies G u b 0 t = t"
| "graftCopies G u b (Suc n) t =
     graft1 G (relabel (b + n * length (addrs u)) u) (graftCopies G u b n t)"

section \<open>Vocabulary of the proofs\<close>

text \<open>
  Predicates that relate the store before and after a copy, a loop or a cut, and names
  for the loop bodies of the functions above.
\<close>

definition copiedH :: "('a node_scheme) list \<Rightarrow> ('a node_scheme) list \<Rightarrow> atree \<Rightarrow> addr option \<Rightarrow> bool" where
  "copiedH h h' t p \<longleftrightarrow>
     length h' = length h + length (addrs t)
     \<and> take (length h) h' = h
     \<and> reprT h' (relabel (length h) t)
     \<and> parentsOk h' (relabel (length h) t)
     \<and> parent (h' ! length h) = p"

definition copied :: "cstate \<Rightarrow> cstate \<Rightarrow> atree \<Rightarrow> addr option \<Rightarrow> bool" where
  "copied s s' t p \<longleftrightarrow>
     copiedH (heap s) (heap s') t p
     \<and> root s' = root s \<and> step s' = step s \<and> reducedGrowth s' = reducedGrowth s
     \<and> idCounter s' = idCounter s + int (length (addrs t))"

definition copyBody :: "nat \<Rightarrow> addr \<Rightarrow> cstate \<Rightarrow> addr \<Rightarrow> error + cstate" where
  "copyBody fuel newNode = (\<lambda>s' child.
                    case deepCopy fuel s' child (Some newNode) of
                      Inl e \<Rightarrow> Inl e
                    | Inr (s'', newChild) \<Rightarrow>
                        Inr (s''\<lparr>heap := push_child (heap s'') newNode newChild\<rparr>))"

definition buildingH :: "('a node_scheme) list \<Rightarrow> ('a node_scheme) list \<Rightarrow> atree list \<Rightarrow> addr option \<Rightarrow> bool" where
  "buildingH h hc ts1 p \<longleftrightarrow>
     length hc = Suc (length h) + length (concat (map addrs ts1))
     \<and> take (length h) hc = h
     \<and> reprT hc (AT (length h) (relabels (Suc (length h)) ts1))
     \<and> parentsOk hc (AT (length h) (relabels (Suc (length h)) ts1))
     \<and> parent (hc ! length h) = p"

definition building :: "cstate \<Rightarrow> cstate \<Rightarrow> atree list \<Rightarrow> addr option \<Rightarrow> bool" where
  "building s sc ts1 p \<longleftrightarrow>
     buildingH (heap s) (heap sc) ts1 p
     \<and> root sc = root s \<and> step sc = step s \<and> reducedGrowth sc = reducedGrowth s
     \<and> idCounter sc = idCounter s + 1 + int (length (concat (map addrs ts1)))"

definition struct :: "('a node_scheme) list \<Rightarrow> (addr list \<times> addr option) list" where
  "struct h = map (\<lambda>n. (children n, parent n)) h"

definition exciseH :: "('a node_scheme) list \<Rightarrow> addr \<Rightarrow> addr \<Rightarrow> ('a node_scheme) list" where
  "exciseH h P L = h[P := (h ! P)\<lparr>children := filter (\<lambda>c. c \<noteq> L) (children (h ! P))\<rparr>]"

definition regrown ::
  "('a node_scheme) list \<Rightarrow> ('a node_scheme) list \<Rightarrow> addr \<Rightarrow> atree \<Rightarrow> addr \<Rightarrow> atree \<Rightarrow> nat \<Rightarrow> bool" where
  "regrown h2 hi r t2 G u i \<longleftrightarrow>
     length hi = length h2 + i * length (addrs u)
     \<and> wfT hi r (graftCopies G u (length h2) i t2)
     \<and> set (addrs (graftCopies G u (length h2) i t2))
         = set (addrs t2) \<union> {length h2 ..< length h2 + i * length (addrs u)}
     \<and> reprT hi u
     \<and> (\<forall>a < length h2. a \<noteq> G \<longrightarrow> hi ! a = h2 ! a)
     \<and> children (hi ! G) = children (h2 ! G) @ map (\<lambda>j. length h2 + j * length (addrs u)) [0..<i]
     \<and> parent (hi ! G) = parent (h2 ! G)
     \<and> (\<forall>j < i. reprT hi (relabel (length h2 + j * length (addrs u)) u)
               \<and> parentsOk hi (relabel (length h2 + j * length (addrs u)) u)
               \<and> parent (hi ! (length h2 + j * length (addrs u))) = Some G)"

definition hasTall :: "addr \<Rightarrow> nat \<Rightarrow> atree \<Rightarrow> bool" where
  "hasTall G k t \<longleftrightarrow> (\<forall>w \<in> set (subtrees t). rootA w = G \<longrightarrow> (\<exists>v \<in> set (subs w). k \<le> height v))"

definition chopBody :: "nat \<Rightarrow> addr \<Rightarrow> addr option \<Rightarrow> cstate \<Rightarrow> nat \<Rightarrow> error + cstate" where
  "chopBody fuel P G = (\<lambda>s' i.
                                   case deepCopy fuel s' P G of
                                     Inl e \<Rightarrow> Inl e
                                   | Inr (s'', copy) \<Rightarrow>
                                       (case G of
                                          None \<Rightarrow> Inl TypeError
                                        | Some g \<Rightarrow>
                                            Inr (s''\<lparr>heap := push_child (heap s'') g copy\<rparr>)))"

definition cutRegrown ::
  "('a node_scheme) list \<Rightarrow> ('a node_scheme) list \<Rightarrow> addr \<Rightarrow> atree \<Rightarrow> addr \<Rightarrow> addr \<Rightarrow> addr \<Rightarrow> atree \<Rightarrow> nat \<Rightarrow> bool" where
  "cutRegrown h h' r t L P G u N \<longleftrightarrow>
     length h' = length h + N * length (addrs u)
     \<and> wfT h' r (graftCopies G u (length h) N (exciseT L t))
     \<and> reprT h' u
     \<and> (\<forall>a < length h. parent (h' ! a) = parent (h ! a))
     \<and> (\<forall>a < length h. a \<noteq> P \<longrightarrow> a \<noteq> G \<longrightarrow> children (h' ! a) = children (h ! a))
     \<and> children (h' ! P) = filter (\<lambda>c. c \<noteq> L) (children (h ! P))
     \<and> children (h' ! G) = children (h ! G) @ map (\<lambda>j. length h + j * length (addrs u)) [0..<N]
     \<and> (\<forall>j < N. reprT h' (relabel (length h + j * length (addrs u)) u)
               \<and> parentsOk h' (relabel (length h + j * length (addrs u)) u)
               \<and> parent (h' ! (length h + j * length (addrs u))) = Some G)"

definition cutAtRoot ::
  "('a node_scheme) list \<Rightarrow> ('a node_scheme) list \<Rightarrow> addr \<Rightarrow> atree \<Rightarrow> addr \<Rightarrow> bool" where
  "cutAtRoot h h' r t L \<longleftrightarrow>
     length h' = length h
     \<and> wfT h' r (exciseT L t)
     \<and> (\<forall>a < length h. parent (h' ! a) = parent (h ! a))
     \<and> (\<forall>a < length h. a \<noteq> r \<longrightarrow> children (h' ! a) = children (h ! a))
     \<and> children (h' ! r) = filter (\<lambda>c. c \<noteq> L) (children (h ! r))"

definition copiedS :: "sstate \<Rightarrow> sstate \<Rightarrow> atree \<Rightarrow> addr option \<Rightarrow> bool" where
  "copiedS s s' t p \<longleftrightarrow>
     copiedH (sheap s) (sheap s') t p
     \<and> hydra s' = hydra s \<and> moveCount s' = moveCount s \<and> depthCounters s' = depthCounters s
     \<and> nextId s' = nextId s + int (length (addrs t))"

definition buildingS :: "sstate \<Rightarrow> sstate \<Rightarrow> atree list \<Rightarrow> addr option \<Rightarrow> bool" where
  "buildingS s sc ts1 p \<longleftrightarrow>
     buildingH (sheap s) (sheap sc) ts1 p
     \<and> hydra sc = hydra s \<and> moveCount sc = moveCount s \<and> depthCounters sc = depthCounters s
     \<and> nextId sc = nextId s + 1 + int (length (concat (map addrs ts1)))"

definition cloneBody :: "nat \<Rightarrow> addr \<Rightarrow> sstate \<Rightarrow> addr \<Rightarrow> error + sstate" where
  "cloneBody fuel copy = (\<lambda>s' c.
                    case cloneSubtree fuel s' c of
                      Inl e \<Rightarrow> Inl e
                    | Inr (s'', cc) \<Rightarrow>
                        Inr (s''\<lparr>sheap := push_child
                               ((sheap s'')[cc := (sheap s'' ! cc)\<lparr>parent := Some copy\<rparr>]) copy cc\<rparr>))"

fun levels :: "atree \<Rightarrow> nat \<Rightarrow> (addr \<times> nat) list" where
  "levels (AT a ts) d = (a, d) # concat (map (\<lambda>t. levels t (Suc d)) ts)"

definition depthsOk :: "snode list \<Rightarrow> atree \<Rightarrow> nat \<Rightarrow> bool" where
  "depthsOk h t d \<longleftrightarrow> (\<forall>(a, k) \<in> set (levels t d). depth (h ! a) = k)"

definition depthInv :: "snode list \<Rightarrow> atree \<Rightarrow> nat \<Rightarrow> snode list \<Rightarrow> atree list \<Rightarrow> bool" where
  "depthInv h t d hh ts1 \<longleftrightarrow>
     struct hh = struct h
     \<and> (\<forall>x. x \<notin> set (rootA t # concat (map addrs ts1)) \<longrightarrow> hh ! x = h ! x)
     \<and> (distinct (addrs t) \<longrightarrow> depth (hh ! rootA t) = d \<and> (\<forall>u \<in> set ts1. depthsOk hh u (Suc d)))"

definition cutBody :: "nat \<Rightarrow> addr \<Rightarrow> addr option \<Rightarrow> sstate \<Rightarrow> nat \<Rightarrow> error + sstate" where
  "cutBody fuel p g = (\<lambda>s' i.
                               case cloneSubtree fuel s' p of
                                 Inl e \<Rightarrow> Inl e
                               | Inr (s'', copy) \<Rightarrow>
                                   (case g of
                                      None \<Rightarrow> Inl TypeError
                                    | Some gg \<Rightarrow>
                                        Inr (s''\<lparr>sheap := push_child
                                               ((sheap s'')[copy := (sheap s'' ! copy)\<lparr>parent := g\<rparr>])
                                               gg copy\<rparr>)))"

text \<open>
  What a cut under the root leaves behind, and what a cut with regrowth leaves behind,
  said with the \<open>children\<close> and \<open>parent\<close> fields only.  \<open>removedOnce xs L ys\<close>: \<open>ys\<close> is
  \<open>xs\<close> with its single occurrence of \<open>L\<close> taken out.
\<close>

definition removedOnce :: "addr list \<Rightarrow> addr \<Rightarrow> addr list \<Rightarrow> bool" where
  "removedOnce xs L ys \<longleftrightarrow>
     (\<exists>pre post. xs = pre @ L # post \<and> ys = pre @ post \<and> L \<notin> set pre \<and> L \<notin> set post)"

definition rootCutSpec ::
  "('a node_scheme) list \<Rightarrow> ('a node_scheme) list \<Rightarrow> addr \<Rightarrow> addr \<Rightarrow> bool" where
  "rootCutSpec h h' r L \<longleftrightarrow>
     length h' = length h
     \<and> removedOnce (children (h ! r)) L (children (h' ! r))
     \<and> (\<forall>a < length h. a \<noteq> r \<longrightarrow> children (h' ! a) = children (h ! a))
     \<and> (\<forall>a < length h. parent (h' ! a) = parent (h ! a))"

definition frameSpec ::
  "('a node_scheme) list \<Rightarrow> ('a node_scheme) list \<Rightarrow> addr \<Rightarrow> addr \<Rightarrow> addr \<Rightarrow> nat \<Rightarrow> bool" where
  "frameSpec h h' L P G N \<longleftrightarrow>
     length h \<le> length h'
     \<and> removedOnce (children (h ! P)) L (children (h' ! P))
     \<and> (\<exists>new. children (h' ! G) = children (h ! G) @ new \<and> length new = N
               \<and> (\<forall>c \<in> set new. length h \<le> c \<and> c < length h'))
     \<and> P \<in> set (children (h ! G))
     \<and> (\<forall>a < length h. a \<noteq> P \<longrightarrow> a \<noteq> G \<longrightarrow> children (h' ! a) = children (h ! a))
     \<and> (\<forall>a < length h. parent (h' ! a) = parent (h ! a))"

definition regrowthSpec ::
  "('a node_scheme) list \<Rightarrow> ('a node_scheme) list \<Rightarrow> addr \<Rightarrow> addr \<Rightarrow> addr \<Rightarrow> atree \<Rightarrow> nat \<Rightarrow> bool" where
  "regrowthSpec h h' L P G u N \<longleftrightarrow>
     L \<notin> set (children (h' ! P))
     \<and> children (h' ! P) = filter (\<lambda>c. c \<noteq> L) (children (h ! P))
     \<and> rootA u = P \<and> reprT h' u \<and> L \<notin> set (addrs u) \<and> (\<forall>a \<in> set (addrs u). a < length h)
     \<and> P \<in> set (children (h' ! G)) \<and> parent (h' ! P) = Some G
     \<and> children (h' ! G)
          = children (h ! G) @ map (\<lambda>j. length h + j * length (addrs u)) [0..<N]
     \<and> (\<forall>j < N. reprT h' (relabel (length h + j * length (addrs u)) u)
               \<and> parentsOk h' (relabel (length h + j * length (addrs u)) u)
               \<and> shape (relabel (length h + j * length (addrs u)) u) = shape u
               \<and> addrs (relabel (length h + j * length (addrs u)) u)
                   = [length h + j * length (addrs u) ..< length h + Suc j * length (addrs u)]
               \<and> parent (h' ! (length h + j * length (addrs u))) = Some G)"

text \<open>The count stored for a depth, as \<open>cutLeaf\<close> reads it.\<close>

definition stored :: "sstate \<Rightarrow> nat \<Rightarrow> nat" where
  "stored s d = (case depthCounters s d of None \<Rightarrow> 0 | Some c \<Rightarrow> c)"

text \<open>
  Concrete states.  \<open>chain3\<close> is index.js after the page has loaded (\<open>initHydra(3)\<close>):
  the root at address 0, n3 at 1, n2 at 2, n1 at 3; \<open>chain3_cut\<close> is \<open>chain3\<close> after n3
  has been chopped; \<open>chain1\<close> is the root with one leaf.  \<open>line3\<close> and \<open>line1\<close> are
  script.js after \<open>setHydra(lineHydra(3))\<close> and \<open>setHydra(lineHydra(1))\<close>;
  \<open>balanced32\<close> is script.js after the page has loaded (\<open>setHydra(balancedHydra(3, 2))\<close>).
\<close>

definition chain3 :: cstate where
  "chain3 = \<lparr>heap =
      [\<lparr>nid = 0, children = [3], parent = None, xpos = 0, ypos = 0, width = 40\<rparr>,
       \<lparr>nid = 3, children = [], parent = Some 2, xpos = 0, ypos = - 240, width = 40\<rparr>,
       \<lparr>nid = 2, children = [1], parent = Some 3, xpos = 0, ypos = - 160, width = 40\<rparr>,
       \<lparr>nid = 1, children = [2], parent = Some 0, xpos = 0, ypos = - 80, width = 40\<rparr>],
     root = 0, step = 0, idCounter = 4, reducedGrowth = False\<rparr>"

definition chain3_cut :: cstate where
  "chain3_cut = \<lparr>heap =
      [\<lparr>nid = 0, children = [3], parent = None, xpos = 0, ypos = 0, width = 80\<rparr>,
       \<lparr>nid = 3, children = [], parent = Some 2, xpos = 0, ypos = - 240, width = 40\<rparr>,
       \<lparr>nid = 2, children = [], parent = Some 3, xpos = - 20, ypos = - 160, width = 40\<rparr>,
       \<lparr>nid = 1, children = [2, 4], parent = Some 0, xpos = 0, ypos = - 80, width = 80\<rparr>,
       \<lparr>nid = 3, children = [], parent = Some 3, xpos = 20, ypos = - 160, width = 40\<rparr>],
     root = 0, step = 1, idCounter = 4, reducedGrowth = False\<rparr>"

definition chain1 :: cstate where
  "chain1 = \<lparr>heap =
      [\<lparr>nid = 0, children = [1], parent = None, xpos = 0, ypos = 0, width = 40\<rparr>,
       \<lparr>nid = 1, children = [], parent = Some 0, xpos = 0, ypos = - 80, width = 40\<rparr>],
     root = 0, step = 0, idCounter = 2, reducedGrowth = False\<rparr>"

definition line3 :: sstate where
  "line3 = \<lparr>sheap =
      [\<lparr>nid = 1, children = [1], parent = None, depth = 0\<rparr>,
       \<lparr>nid = 2, children = [2], parent = Some 0, depth = 1\<rparr>,
       \<lparr>nid = 3, children = [3], parent = Some 1, depth = 2\<rparr>,
       \<lparr>nid = 4, children = [], parent = Some 2, depth = 3\<rparr>],
     hydra = Some 0, moveCount = 0, depthCounters = Map.empty, nextId = 5\<rparr>"

definition line1 :: sstate where
  "line1 = \<lparr>sheap =
      [\<lparr>nid = 1, children = [1], parent = None, depth = 0\<rparr>,
       \<lparr>nid = 2, children = [], parent = Some 0, depth = 1\<rparr>],
     hydra = Some 0, moveCount = 0, depthCounters = Map.empty, nextId = 3\<rparr>"

definition balanced32 :: sstate where
  "balanced32 = \<lparr>sheap =
      [\<lparr>nid = 1, children = [], parent = Some 2, depth = 3\<rparr>,
       \<lparr>nid = 2, children = [], parent = Some 2, depth = 3\<rparr>,
       \<lparr>nid = 3, children = [0, 1], parent = Some 6, depth = 2\<rparr>,
       \<lparr>nid = 4, children = [], parent = Some 5, depth = 3\<rparr>,
       \<lparr>nid = 5, children = [], parent = Some 5, depth = 3\<rparr>,
       \<lparr>nid = 6, children = [3, 4], parent = Some 6, depth = 2\<rparr>,
       \<lparr>nid = 7, children = [2, 5], parent = Some 14, depth = 1\<rparr>,
       \<lparr>nid = 8, children = [], parent = Some 9, depth = 3\<rparr>,
       \<lparr>nid = 9, children = [], parent = Some 9, depth = 3\<rparr>,
       \<lparr>nid = 10, children = [7, 8], parent = Some 13, depth = 2\<rparr>,
       \<lparr>nid = 11, children = [], parent = Some 12, depth = 3\<rparr>,
       \<lparr>nid = 12, children = [], parent = Some 12, depth = 3\<rparr>,
       \<lparr>nid = 13, children = [10, 11], parent = Some 13, depth = 2\<rparr>,
       \<lparr>nid = 14, children = [9, 12], parent = Some 14, depth = 1\<rparr>,
       \<lparr>nid = 15, children = [6, 13], parent = None, depth = 0\<rparr>],
     hydra = Some 14, moveCount = 0, depthCounters = Map.empty, nextId = 16\<rparr>"

text \<open>The trees that \<open>chain3\<close> and \<open>balanced32\<close> hold.\<close>

definition chain3_tree :: atree where
  "chain3_tree = AT 0 [AT 3 [AT 2 [AT 1 []]]]"

definition balanced32_tree :: atree where
  "balanced32_tree =
     AT 14 [AT 6 [AT 2 [AT 0 [], AT 1 []], AT 5 [AT 3 [], AT 4 []]],
            AT 13 [AT 9 [AT 7 [], AT 8 []], AT 12 [AT 10 [], AT 11 []]]]"

text \<open>The position that \<open>computeLayout\<close> gives to one node, if it returns.\<close>

definition layoutOf :: "nat \<Rightarrow> snode list \<Rightarrow> rat \<Rightarrow> addr \<Rightarrow> addr \<Rightarrow> (rat \<times> rat) option" where
  "layoutOf fuel h W r a = (case computeLayout fuel h W r of Inl e \<Rightarrow> None | Inr coords \<Rightarrow> coords a)"

text \<open>\<open>chain3\<close> after \<open>chop\<close> has been given n2, which is not a leaf.\<close>

definition chain3_chop_n2 :: cstate where
  "chain3_chop_n2 = \<lparr>heap =
      [\<lparr>nid = 0, children = [3, 4], parent = None, xpos = 0, ypos = 0, width = 80\<rparr>,
       \<lparr>nid = 3, children = [], parent = Some 2, xpos = 0, ypos = - 240, width = 40\<rparr>,
       \<lparr>nid = 2, children = [1], parent = Some 3, xpos = 0, ypos = - 160, width = 40\<rparr>,
       \<lparr>nid = 1, children = [], parent = Some 0, xpos = - 20, ypos = - 80, width = 40\<rparr>,
       \<lparr>nid = 2, children = [], parent = Some 0, xpos = 20, ypos = - 80, width = 40\<rparr>],
     root = 0, step = 1, idCounter = 3, reducedGrowth = False\<rparr>"

text \<open>
  The game.  The hydra is slain when the root has no children
  (\<open>root.children.length === 0\<close>), and \<open>cutMove s s'\<close> is one move of index.js: \<open>chop\<close>,
  given a leaf that \<open>getAllNodes\<close> lists, returns \<open>s'\<close>.
\<close>

definition slain :: "cstate \<Rightarrow> bool" where
  "slain s \<longleftrightarrow> length (children (heap s ! root s)) = 0"

definition cutMove :: "cstate \<Rightarrow> cstate \<Rightarrow> bool" where
  "cutMove s s' \<longleftrightarrow>
     (\<exists>fuel nodes L. getAllNodes fuel s = Inr nodes \<and> L \<in> set nodes \<and> isLeaf s L
        \<and> chop fuel s L = Inr s')"

text \<open>
  The order that every move descends.  Shapes are compared level by level with the
  multiset extension: \<open>hlt (Suc n)\<close> compares two shapes by the multisets of their
  children under \<open>hlt n\<close>, and \<open>hless\<close> compares a shape with one that is at least as
  high.
\<close>

fun theight :: "tree \<Rightarrow> nat" where
  "theight (T ts) = foldr (\<lambda>t m. max (Suc (theight t)) m) ts 0"

fun hlt :: "nat \<Rightarrow> (tree \<times> tree) set" where
  "hlt 0 = {}"
| "hlt (Suc n) = inv_image (mult (hlt n)) (\<lambda>a. mset (kidsT a))"

definition hless :: "(tree \<times> tree) set" where
  "hless = {(a, b). theight a \<le> theight b \<and> (a, b) \<in> hlt (Suc (theight b))}"

text \<open>index.js with a chain of length 2, and the three states of the shortest play from it.\<close>

definition chain2 :: cstate where
  "chain2 = \<lparr>heap =
      [\<lparr>nid = 0, children = [2], parent = None, xpos = 0, ypos = 0, width = 40\<rparr>,
       \<lparr>nid = 2, children = [], parent = Some 2, xpos = 0, ypos = - 160, width = 40\<rparr>,
       \<lparr>nid = 1, children = [1], parent = Some 0, xpos = 0, ypos = - 80, width = 40\<rparr>],
     root = 0, step = 0, idCounter = 3, reducedGrowth = False\<rparr>"


definition chain2_tree :: atree where
  "chain2_tree = AT 0 [AT 2 [AT 1 []]]"

definition chain2_cut1 :: cstate where
  "chain2_cut1 = \<lparr>heap =
      [\<lparr>nid = 0, children = [2, 3], parent = None, xpos = 0, ypos = 0, width = 80\<rparr>,
       \<lparr>nid = 2, children = [], parent = Some 2, xpos = 0, ypos = - 160, width = 40\<rparr>,
       \<lparr>nid = 1, children = [], parent = Some 0, xpos = - 20, ypos = - 80, width = 40\<rparr>,
       \<lparr>nid = 2, children = [], parent = Some 0, xpos = 20, ypos = - 80, width = 40\<rparr>],
     root = 0, step = 1, idCounter = 3, reducedGrowth = False\<rparr>"

definition chain2_cut2 :: cstate where
  "chain2_cut2 = \<lparr>heap =
      [\<lparr>nid = 0, children = [3], parent = None, xpos = 0, ypos = 0, width = 40\<rparr>,
       \<lparr>nid = 2, children = [], parent = Some 2, xpos = 0, ypos = - 160, width = 40\<rparr>,
       \<lparr>nid = 1, children = [], parent = Some 0, xpos = - 20, ypos = - 80, width = 40\<rparr>,
       \<lparr>nid = 1, children = [], parent = Some 0, xpos = 0, ypos = - 80, width = 40\<rparr>],
     root = 0, step = 2, idCounter = 2, reducedGrowth = False\<rparr>"

definition chain2_cut3 :: cstate where
  "chain2_cut3 = \<lparr>heap =
      [\<lparr>nid = 0, children = [], parent = None, xpos = 0, ypos = 0, width = 40\<rparr>,
       \<lparr>nid = 2, children = [], parent = Some 2, xpos = 0, ypos = - 160, width = 40\<rparr>,
       \<lparr>nid = 1, children = [], parent = Some 0, xpos = - 20, ypos = - 80, width = 40\<rparr>,
       \<lparr>nid = 1, children = [], parent = Some 0, xpos = 0, ypos = - 80, width = 40\<rparr>],
     root = 0, step = 3, idCounter = 1, reducedGrowth = False\<rparr>"

definition chain2_play :: "nat \<Rightarrow> cstate" where
  "chain2_play n = (if n = 0 then chain2 else if n = 1 then chain2_cut1
                    else if n = 2 then chain2_cut2 else chain2_cut3)"

section \<open>Copies, traversals and cuts: lemmas\<close>

lemma forEach_append:
  "forEach (xs @ ys) body s = (case forEach xs body s of Inl e \<Rightarrow> Inl e | Inr s' \<Rightarrow> forEach ys body s')"
  by (induction xs arbitrary: s) (auto split: sum.splits)

lemma length_addrs_pos: "0 < length (addrs t)"
  by (cases t) simp

lemma addrs_relabel: "addrs (relabel b t) = [b ..< b + length (addrs t)]"
  and addrs_relabels: "concat (map addrs (relabels b ts)) = [b ..< b + length (concat (map addrs ts))]"
proof (induction b t and b ts rule: relabel_relabels.induct)
  case (1 b a ts)
  then show ?case by (simp del: upt_Suc add: upt_conv_Cons)
next
  case (2 b)
  then show ?case by simp
next
  case (3 b t ts)
  have "[b ..< b + length (addrs t) + length (concat (map addrs ts))]
        = [b ..< b + length (addrs t)] @ [b + length (addrs t) ..< b + length (addrs t) + length (concat (map addrs ts))]"
    by (rule upt_add_eq_append) simp
  with 3 show ?case by (simp add: add.assoc)
qed

lemma shape_relabel: "shape (relabel b t) = shape t"
  and shape_relabels: "map shape (relabels b ts) = map shape ts"
  by (induction b t and b ts rule: relabel_relabels.induct) simp_all

lemma height_relabel: "height (relabel b t) = height t"
  and height_relabels: "foldr (\<lambda>t m. max (Suc (height t)) m) (relabels b ts) 0 = foldr (\<lambda>t m. max (Suc (height t)) m) ts 0"
  by (induction b t and b ts rule: relabel_relabels.induct) simp_all

lemma reprT_cong:
  "reprT h t \<Longrightarrow> length h \<le> length h' \<Longrightarrow>
   (\<forall>a \<in> set (addrs t). children (h' ! a) = children (h ! a)) \<Longrightarrow> reprT h' t"
  by (induction h t rule: reprT.induct) auto

lemma parentsOk_cong:
  "parentsOk h t \<Longrightarrow>
   (\<forall>a \<in> set (addrs t). parent (h' ! a) = parent (h ! a)) \<Longrightarrow> parentsOk h' t"
proof (induction h t rule: parentsOk.induct)
  case (1 h a ts)
  have "rootA u \<in> set (addrs u)" for u by (cases u) simp
  with 1 show ?case by auto
qed

lemma reprT_addrs_lt: "reprT h t \<Longrightarrow> a \<in> set (addrs t) \<Longrightarrow> a < length h"
  by (induction h t rule: reprT.induct) auto

lemma height_sub: "t \<in> set ts \<Longrightarrow> height t < height (AT a ts)"
  by (induction ts) (auto simp: less_Suc_eq_le max_def)

lemma rootA_relabel [simp]: "rootA (relabel b t) = b"
  by (cases t) simp

lemma rootA_in_addrs: "rootA t \<in> set (addrs t)"
  by (cases t) simp

lemma relabels_append:
  "relabels b (ts @ us) = relabels b ts @ relabels (b + length (concat (map addrs ts))) us"
  by (induction ts arbitrary: b) (simp_all add: add.assoc)

lemma addrs_relabels_mem:
  "u \<in> set (relabels b ts) \<Longrightarrow> x \<in> set (addrs u) \<Longrightarrow> b \<le> x \<and> x < b + length (concat (map addrs ts))"
proof -
  assume "u \<in> set (relabels b ts)" "x \<in> set (addrs u)"
  then have "x \<in> set (concat (map addrs (relabels b ts)))" by auto
  then show ?thesis by (simp add: addrs_relabels)
qed

lemma reprT_take:
  assumes "reprT h t" "take (length h) h' = h" shows "reprT h' t"
proof (rule reprT_cong [OF assms(1)])
  show "length h \<le> length h'" using arg_cong [OF assms(2), of length] by simp
  show "\<forall>a\<in>set (addrs t). children (h' ! a) = children (h ! a)"
  proof
    fix a assume "a \<in> set (addrs t)"
    then have "a < length h" using assms(1) reprT_addrs_lt by blast
    then show "children (h' ! a) = children (h ! a)" using assms(2) by (metis nth_take)
  qed
qed

lemma parentsOk_take:
  assumes "parentsOk h t" "reprT h t" "take (length h) h' = h" shows "parentsOk h' t"
proof (rule parentsOk_cong [OF assms(1)])
  show "\<forall>a\<in>set (addrs t). parent (h' ! a) = parent (h ! a)"
  proof
    fix a assume "a \<in> set (addrs t)"
    then have "a < length h" using assms(2) reprT_addrs_lt by blast
    then show "parent (h' ! a) = parent (h ! a)" using assms(3) by (metis nth_take)
  qed
qed

lemma length_push_child [simp]: "length (push_child h n c) = length h"
  by (simp add: push_child_def)

lemma parent_push_child [simp]: "parent (push_child h n c ! a) = parent (h ! a)"
  by (cases "a = n"; cases "n < length h") (simp_all add: push_child_def list_update_beyond)

lemma children_push_child:
  "n < length h \<Longrightarrow> children (push_child h n c ! a) = (if a = n then children (h ! n) @ [c] else children (h ! a))"
  by (simp add: push_child_def)

lemma reprT_push_other:
  "reprT h t \<Longrightarrow> n \<notin> set (addrs t) \<Longrightarrow> reprT (push_child h n c) t"
proof (rule reprT_cong)
  assume n: "n \<notin> set (addrs t)"
  show "\<forall>a\<in>set (addrs t). children (push_child h n c ! a) = children (h ! a)"
  proof
    fix a assume "a \<in> set (addrs t)"
    with n have "a \<noteq> n" by blast
    then show "children (push_child h n c ! a) = children (h ! a)" by (simp add: push_child_def)
  qed
qed simp_all

lemma parentsOk_push: "parentsOk (push_child h n c) t = parentsOk h t"
  by (induction h t rule: parentsOk.induct) simp

lemma take_push_child: "b \<le> n \<Longrightarrow> take b (push_child h n c) = take b h"
  by (simp add: push_child_def)

lemma buildingH_step:
  assumes inv: "buildingH h hc ts1 p"
    and cp: "copiedH hc h'' t (Some (length h))"
  shows "buildingH h (push_child h'' (length h) (length hc)) (ts1 @ [t]) p"
proof -
  let ?b = "length h"
  let ?c = "length hc"
  let ?h = "push_child h'' ?b ?c"
  let ?old = "relabels (Suc ?b) ts1"
  from inv have len: "?c = Suc ?b + length (concat (map addrs ts1))"
    and tk: "take ?b hc = h"
    and rp: "reprT hc (AT ?b ?old)" and po: "parentsOk hc (AT ?b ?old)"
    and par: "parent (hc ! ?b) = p"
    by (simp_all add: buildingH_def)
  from cp have len': "length h'' = ?c + length (addrs t)"
    and tk': "take ?c h'' = hc"
    and rp': "reprT h'' (relabel ?c t)" and po': "parentsOk h'' (relabel ?c t)"
    and par': "parent (h'' ! ?c) = Some ?b"
    by (simp_all add: copiedH_def)
  have blt: "?b < ?c" using len by simp
  have nth_old: "h'' ! a = hc ! a" if "a < ?c" for a
    using tk' that by (metis nth_take)
  have rel: "relabels (Suc ?b) (ts1 @ [t]) = ?old @ [relabel ?c t]"
    by (simp add: relabels_append len)
  have old_notb: "?b \<notin> set (addrs u)" if "u \<in> set ?old" for u
    using addrs_relabels_mem [OF that] by fastforce
  have new_notb: "?b \<notin> set (addrs (relabel ?c t))"
    using blt by (simp add: addrs_relabel)
  have r1: "reprT h'' (AT ?b ?old)" by (rule reprT_take [OF rp tk'])
  have p1: "parentsOk h'' (AT ?b ?old)" by (rule parentsOk_take [OF po rp tk'])
  have ch: "children (?h ! ?b) = map rootA (?old @ [relabel ?c t])"
    using r1 blt len' by (simp add: children_push_child)
  have "reprT ?h (AT ?b (?old @ [relabel ?c t]))"
  proof -
    have "reprT ?h u" if "u \<in> set ?old" for u
      using r1 that old_notb by (auto intro: reprT_push_other)
    moreover have "reprT ?h (relabel ?c t)" by (rule reprT_push_other [OF rp' new_notb])
    ultimately show ?thesis using ch blt len' by auto
  qed
  moreover have "parentsOk ?h (AT ?b (?old @ [relabel ?c t]))"
    using p1 po' par' by (auto simp: parentsOk_push)
  moreover have "take ?b ?h = h"
  proof -
    have "take ?b ?h = take ?b h''" by (simp add: take_push_child)
    also have "\<dots> = take ?b (take ?c h'')" using blt by (simp add: min_def)
    finally show ?thesis using tk tk' by simp
  qed
  moreover have "parent (?h ! ?b) = p" using par nth_old [OF blt] by simp
  ultimately show ?thesis
    using len len' by (simp add: buildingH_def rel)
qed

lemma building_step:
  assumes inv: "building s sc ts1 p"
    and cp: "copied sc s'' t (Some (length (heap s)))"
  shows "building s (s''\<lparr>heap := push_child (heap s'') (length (heap s)) (length (heap sc))\<rparr>) (ts1 @ [t]) p"
  using assms buildingH_step [of "heap s" "heap sc" ts1 p "heap s''" t]
  by (simp add: building_def copied_def)

lemma deepCopy_exact:
  "reprT (heap s) t \<Longrightarrow> height t < fuel \<Longrightarrow>
   \<exists>s'. deepCopy fuel s (rootA t) p = Inr (s', length (heap s)) \<and> copied s s' t p"
proof (induction fuel arbitrary: s t p)
  case 0
  then show ?case by simp
next
  case (Suc fuel)
  obtain a ts where t: "t = AT a ts" by (cases t)
  let ?b = "length (heap s)"
  let ?n0 = "\<lparr>nid = idCounter s, children = [], parent = p, xpos = 0, ypos = 0, width = 0\<rparr>"
  define s3 where "s3 = s\<lparr>idCounter := idCounter s + 1, heap := heap s @ [?n0]\<rparr>"
  from Suc.prems t have a: "a < ?b" and ch: "children (heap s ! a) = map rootA ts"
    and sub: "\<And>u. u \<in> set ts \<Longrightarrow> reprT (heap s) u" by auto
  have hsub: "height u < fuel" if "u \<in> set ts" for u
    using height_sub [OF that, of a] Suc.prems(2) t by simp
  have unfold: "deepCopy (Suc fuel) s a p =
      (case forEach (map rootA ts) (copyBody fuel ?b) s3 of Inl e \<Rightarrow> Inl e | Inr s4 \<Rightarrow> Inr (s4, ?b))"
    using a ch by (simp add: newId_def new_Node_def s3_def copyBody_def nth_append cong del: sum.case_cong_weak)
  have init: "building s s3 [] p"
    by (simp add: building_def buildingH_def s3_def)
  have loop: "\<exists>s4. forEach (map rootA us) (copyBody fuel ?b) sc = Inr s4 \<and> building s s4 (ts1 @ us) p"
    if "set us \<subseteq> set ts" "building s sc ts1 p" for us ts1 sc
    using that
  proof (induction us arbitrary: ts1 sc)
    case Nil
    then show ?case by simp
  next
    case (Cons u us)
    from Cons.prems have u: "u \<in> set ts" by simp
    from Cons.prems(2) have tk: "take ?b (heap sc) = heap s" by (simp add: building_def buildingH_def)
    have "reprT (heap sc) u" using sub [OF u] tk by (auto intro: reprT_take)
    from Suc.IH [OF this hsub [OF u], of "Some ?b"]
    obtain s'' where dc: "deepCopy fuel sc (rootA u) (Some ?b) = Inr (s'', length (heap sc))"
      and cp: "copied sc s'' u (Some ?b)" by blast
    let ?sn = "s''\<lparr>heap := push_child (heap s'') ?b (length (heap sc))\<rparr>"
    have "building s ?sn (ts1 @ [u]) p" by (rule building_step [OF Cons.prems(2) cp])
    from Cons.IH [OF _ this] Cons.prems(1)
    obtain s4 where "forEach (map rootA us) (copyBody fuel ?b) ?sn = Inr s4"
      and "building s s4 ((ts1 @ [u]) @ us) p" by auto
    then show ?case using dc by (simp add: copyBody_def)
  qed
  from loop [where us = ts and ?ts1.0 = "[]" and sc = s3, OF _ init]
  obtain s4 where fe: "forEach (map rootA ts) (copyBody fuel ?b) s3 = Inr s4"
    and fin: "building s s4 ts p" by auto
  have "copied s s4 t p" using fin by (simp add: building_def buildingH_def copied_def copiedH_def t)
  then show ?case using unfold fe t by simp
qed

lemma struct_length: "struct h = struct h' \<Longrightarrow> length h' = length h"
  by (metis length_map struct_def)

lemma struct_nth:
  assumes "struct h = struct h'" "a < length h"
  shows "children (h' ! a) = children (h ! a)" "parent (h' ! a) = parent (h ! a)"
proof -
  have "a < length h'" using assms struct_length by metis
  then have "struct h' ! a = (children (h' ! a), parent (h' ! a))" by (simp add: struct_def)
  moreover have "struct h ! a = (children (h ! a), parent (h ! a))" using assms(2) by (simp add: struct_def)
  ultimately show "children (h' ! a) = children (h ! a)" "parent (h' ! a) = parent (h ! a)"
    using assms(1) by simp_all
qed

lemma struct_update:
  "children n = children (h ! a) \<Longrightarrow> parent n = parent (h ! a) \<Longrightarrow> struct (h[a := n]) = struct h"
proof (cases "a < length h")
  case True
  assume "children n = children (h ! a)" "parent n = parent (h ! a)"
  then have "struct (h[a := n]) = (struct h)[a := struct h ! a]"
    using True by (simp add: struct_def map_update)
  then show ?thesis by simp
next
  case False
  then show ?thesis by (simp add: list_update_beyond)
qed

lemma reprT_struct: "struct h = struct h' \<Longrightarrow> reprT h t \<Longrightarrow> reprT h' t"
proof (rule reprT_cong)
  assume st: "struct h = struct h'" and r: "reprT h t"
  show "length h \<le> length h'" using struct_length [OF st] by simp
  show "\<forall>a\<in>set (addrs t). children (h' ! a) = children (h ! a)"
    using reprT_addrs_lt [OF r] struct_nth(1) [OF st] by blast
qed

lemma parentsOk_struct: "struct h = struct h' \<Longrightarrow> reprT h t \<Longrightarrow> parentsOk h t \<Longrightarrow> parentsOk h' t"
proof (rule parentsOk_cong)
  assume st: "struct h = struct h'" and r: "reprT h t"
  show "\<forall>a\<in>set (addrs t). parent (h' ! a) = parent (h ! a)"
    using reprT_addrs_lt [OF r] struct_nth(2) [OF st] by blast
qed

lemma wfT_struct: "struct h = struct h' \<Longrightarrow> wfT h r t \<Longrightarrow> wfT h' r t"
proof -
  assume st: "struct h = struct h'" and w: "wfT h r t"
  then have r: "reprT h t" and rt: "rootA t = r" by (simp_all add: wfT_def)
  have "r < length h" using reprT_addrs_lt [OF r] rootA_in_addrs [of t] rt by blast
  then have "parent (h' ! r) = parent (h ! r)" using struct_nth(2) [OF st] by blast
  moreover have "reprT h' t" by (rule reprT_struct [OF st r])
  moreover have "parentsOk h' t" using w by (auto simp: wfT_def intro: parentsOk_struct [OF st r])
  ultimately show ?thesis using w by (simp add: wfT_def)
qed

lemma forEach_inv:
  assumes "I s" and "\<And>x s. x \<in> set xs \<Longrightarrow> I s \<Longrightarrow> \<exists>s'. body s x = Inr s' \<and> I s'"
  shows "\<exists>s'. forEach xs body s = Inr s' \<and> I s'"
  using assms
proof (induction xs arbitrary: s)
  case Nil
  then show ?case by simp
next
  case (Cons x xs)
  from Cons.prems(2) [of x s] Cons.prems(1)
  obtain s1 where b: "body s x = Inr s1" and i: "I s1" by auto
  from Cons.IH [OF i] Cons.prems(2)
  obtain s' where "forEach xs body s1 = Inr s'" "I s'" by auto
  then show ?case using b by simp
qed

lemma traverseRelabel_ok:
  "reprT h t \<Longrightarrow> height t < fuel \<Longrightarrow>
   \<exists>h' n'. traverseRelabel fuel (h, n) (rootA t) = Inr (h', n') \<and> struct h' = struct h"
proof (induction fuel arbitrary: h n t)
  case 0
  then show ?case by simp
next
  case (Suc fuel)
  obtain a ts where t: "t = AT a ts" by (cases t)
  let ?h1 = "h[a := (h ! a)\<lparr>nid := n\<rparr>]"
  from Suc.prems t have a: "a < length h" and ch: "children (h ! a) = map rootA ts"
    and sub: "\<And>u. u \<in> set ts \<Longrightarrow> reprT h u" by auto
  have s1: "struct ?h1 = struct h" by (rule struct_update) simp_all
  have ch1: "children (?h1 ! a) = map rootA ts" using a ch by simp
  have "\<exists>acc'. forEach (map rootA ts) (\<lambda>acc c. traverseRelabel fuel acc c) (?h1, n + 1) = Inr acc'
          \<and> struct (fst acc') = struct h"
  proof (rule forEach_inv [where I = "\<lambda>acc. struct (fst acc) = struct h"])
    show "struct (fst (?h1, n + 1)) = struct h" using s1 by simp
  next
    fix x and acc :: "cnode list \<times> int"
    assume x: "x \<in> set (map rootA ts)" and I: "struct (fst acc) = struct h"
    then obtain u where u: "u \<in> set ts" "x = rootA u" by auto
    have ru: "reprT (fst acc) u" by (rule reprT_struct [OF I [symmetric] sub [OF u(1)]])
    have hu: "height u < fuel" using height_sub [OF u(1), of a] Suc.prems(2) t by simp
    from Suc.IH [OF ru hu, of "snd acc"]
    obtain h' n' where "traverseRelabel fuel (fst acc, snd acc) (rootA u) = Inr (h', n')"
      "struct h' = struct (fst acc)" by blast
    then show "\<exists>s'. traverseRelabel fuel acc x = Inr s' \<and> struct (fst s') = struct h"
      using u I by simp
  qed
  then obtain acc' where fe0: "forEach (map rootA ts) (\<lambda>acc c. traverseRelabel fuel acc c) (?h1, n + 1) = Inr acc'"
    and st0: "struct (fst acc') = struct h" by blast
  obtain h' n' where acc': "acc' = (h', n')" by (cases acc')
  show ?case using t ch1 fe0 st0 acc' by (simp add: Let_def)
qed

lemma computeWidths_ok:
  "reprT h t \<Longrightarrow> height t < fuel \<Longrightarrow>
   \<exists>h'. computeWidths fuel h (rootA t) = Inr h' \<and> struct h' = struct h"
proof (induction fuel arbitrary: h t)
  case 0
  then show ?case by simp
next
  case (Suc fuel)
  obtain a ts where t: "t = AT a ts" by (cases t)
  from Suc.prems t have a: "a < length h" and ch: "children (h ! a) = map rootA ts"
    and sub: "\<And>u. u \<in> set ts \<Longrightarrow> reprT h u" by auto
  let ?body = "\<lambda>acc child. case computeWidths fuel (fst acc) child of
                   Inl e \<Rightarrow> Inl e
                 | Inr h' \<Rightarrow> Inr (h', snd acc + width (h' ! child))"
  have "\<exists>acc'. forEach (map rootA ts) ?body (h, 0) = Inr acc' \<and> struct (fst acc') = struct h"
  proof (rule forEach_inv [where I = "\<lambda>acc. struct (fst acc) = struct h"])
    show "struct (fst (h, 0::rat)) = struct h" by simp
  next
    fix x and acc :: "cnode list \<times> rat"
    assume x: "x \<in> set (map rootA ts)" and I: "struct (fst acc) = struct h"
    then obtain u where u: "u \<in> set ts" "x = rootA u" by auto
    have ru: "reprT (fst acc) u" by (rule reprT_struct [OF I [symmetric] sub [OF u(1)]])
    have hu: "height u < fuel" using height_sub [OF u(1), of a] Suc.prems(2) t by simp
    from Suc.IH [OF ru hu]
    obtain h' where "computeWidths fuel (fst acc) (rootA u) = Inr h'"
      "struct h' = struct (fst acc)" by blast
    then show "\<exists>s'. ?body acc x = Inr s' \<and> struct (fst s') = struct h"
      using u I by simp
  qed
  then obtain acc' where fe0: "forEach (map rootA ts) ?body (h, 0) = Inr acc'" and st0: "struct (fst acc') = struct h"
    by blast
  obtain h' sm where acc': "acc' = (h', sm)" by (cases acc')
  have fe: "forEach (map rootA ts) ?body (h, 0) = Inr (h', sm)" and st: "struct h' = struct h"
    using fe0 st0 acc' by simp_all
  have "struct (h'[a := (h' ! a)\<lparr>width := w\<rparr>]) = struct h" for w
    using st by (simp add: struct_update)
  then show ?case using t ch fe by simp
qed

lemma placeNodes_ok:
  "reprT h t \<Longrightarrow> height t < fuel \<Longrightarrow>
   \<exists>h'. placeNodes fuel h (rootA t) x0 y0 = Inr h' \<and> struct h' = struct h"
proof (induction fuel arbitrary: h t x0 y0)
  case 0
  then show ?case by simp
next
  case (Suc fuel)
  obtain a ts where t: "t = AT a ts" by (cases t)
  from Suc.prems t have a: "a < length h" and ch: "children (h ! a) = map rootA ts"
    and sub: "\<And>u. u \<in> set ts \<Longrightarrow> reprT h u" by auto
  let ?h1 = "h[a := (h ! a)\<lparr>xpos := x0, ypos := y0\<rparr>]"
  have s1: "struct ?h1 = struct h" by (rule struct_update) simp_all
  have ch1: "children (?h1 ! a) = map rootA ts" using a ch by simp
  let ?body = "\<lambda>acc child. case placeNodes fuel (fst acc) child
                           (snd acc + width (fst acc ! child) / 2) (y0 - vSpacing) of
                      Inl e \<Rightarrow> Inl e
                    | Inr h' \<Rightarrow> Inr (h', snd acc + width (h' ! child))"
  have "\<exists>acc'. forEach (map rootA ts) ?body (?h1, c0) = Inr acc' \<and> struct (fst acc') = struct h" for c0
  proof (rule forEach_inv [where I = "\<lambda>acc. struct (fst acc) = struct h"])
    show "struct (fst (?h1, c0)) = struct h" using s1 by simp
  next
    fix x and acc :: "cnode list \<times> rat"
    assume x: "x \<in> set (map rootA ts)" and I: "struct (fst acc) = struct h"
    then obtain u where u: "u \<in> set ts" "x = rootA u" by auto
    have ru: "reprT (fst acc) u" by (rule reprT_struct [OF I [symmetric] sub [OF u(1)]])
    have hu: "height u < fuel" using height_sub [OF u(1), of a] Suc.prems(2) t by simp
    from Suc.IH [OF ru hu, of "snd acc + width (fst acc ! rootA u) / 2" "y0 - vSpacing"]
    obtain h' where "placeNodes fuel (fst acc) (rootA u) (snd acc + width (fst acc ! rootA u) / 2) (y0 - vSpacing) = Inr h'"
      "struct h' = struct (fst acc)" by blast
    then show "\<exists>s'. ?body acc x = Inr s' \<and> struct (fst s') = struct h"
      using u I by simp
  qed
  from this [of "x0 - fold (\<lambda>child acc. acc + width (?h1 ! child)) (map rootA ts) 0 / 2"]
  obtain acc' where fe0: "forEach (map rootA ts) ?body
      (?h1, x0 - fold (\<lambda>child acc. acc + width (?h1 ! child)) (map rootA ts) 0 / 2) = Inr acc'"
    and st0: "struct (fst acc') = struct h" by blast
  obtain h' cx where acc': "acc' = (h', cx)" by (cases acc')
  show ?case using t ch1 fe0 st0 acc' by (simp add: Let_def)
qed

lemma redraw_ok:
  assumes "reprT (heap s) t" "rootA t = root s" "height t < fuel"
  shows "\<exists>s'. redraw fuel s = Inr s' \<and> struct (heap s') = struct (heap s)
            \<and> root s' = root s \<and> step s' = step s \<and> reducedGrowth s' = reducedGrowth s"
proof -
  from traverseRelabel_ok [OF assms(1,3), of 0] assms(2)
  obtain h1 n1 where 1: "traverseRelabel fuel (heap s, 0) (root s) = Inr (h1, n1)" "struct h1 = struct (heap s)"
    by auto
  have r1: "reprT h1 t" by (rule reprT_struct [OF 1(2) [symmetric] assms(1)])
  from computeWidths_ok [OF r1 assms(3)] assms(2)
  obtain h2 where 2: "computeWidths fuel h1 (root s) = Inr h2" "struct h2 = struct h1" by auto
  have r2: "reprT h2 t" by (rule reprT_struct [OF 2(2) [symmetric] r1])
  from placeNodes_ok [OF r2 assms(3), of 0 0] assms(2)
  obtain h3 where 3: "placeNodes fuel h2 (root s) 0 0 = Inr h3" "struct h3 = struct h2" by auto
  show ?thesis using 1 2 3 by (simp add: redraw_def relabelTree_def)
qed

lemma addrs_subtrees: "addrs t = map rootA (subtrees t)"
  by (induction t) (simp add: map_concat comp_def cong: map_cong)

lemma self_subtree: "t \<in> set (subtrees t)"
  by (cases t) simp

lemma subtrees_trans: "u \<in> set (subtrees t) \<Longrightarrow> w \<in> set (subtrees u) \<Longrightarrow> w \<in> set (subtrees t)"
  by (induction t) auto

lemma sub_subtree: "u \<in> set (subtrees t) \<Longrightarrow> v \<in> set (subs u) \<Longrightarrow> v \<in> set (subtrees t)"
proof -
  assume u: "u \<in> set (subtrees t)" and v: "v \<in> set (subs u)"
  have "v \<in> set (subtrees u)" using v self_subtree [of v] by (cases u) auto
  then show ?thesis using u subtrees_trans by blast
qed

lemma reprT_subtree: "reprT h t \<Longrightarrow> u \<in> set (subtrees t) \<Longrightarrow> reprT h u"
  by (induction t) auto

lemma parentsOk_subtree: "parentsOk h t \<Longrightarrow> u \<in> set (subtrees t) \<Longrightarrow> parentsOk h u"
  by (induction t) auto

lemma addrs_subtree_subset: "u \<in> set (subtrees t) \<Longrightarrow> set (addrs u) \<subseteq> set (addrs t)"
  by (induction t) auto

lemma subtree_unique:
  "distinct (addrs t) \<Longrightarrow> u \<in> set (subtrees t) \<Longrightarrow> v \<in> set (subtrees t) \<Longrightarrow> rootA u = rootA v \<Longrightarrow> u = v"
  by (simp add: addrs_subtrees distinct_map inj_on_def)

lemma nonroot_has_parent:
  "a \<in> set (addrs t) \<Longrightarrow> a \<noteq> rootA t \<Longrightarrow>
   \<exists>w \<in> set (subtrees t). \<exists>v \<in> set (subs w). rootA v = a"
proof (induction t)
  case (AT b ts)
  then obtain u where u: "u \<in> set ts" "a \<in> set (addrs u)" by auto
  show ?case
  proof (cases "a = rootA u")
    case True
    have "AT b ts \<in> set (subtrees (AT b ts))" by simp
    moreover have "u \<in> set (subs (AT b ts))" using u(1) by simp
    ultimately show ?thesis using True by blast
  next
    case False
    from AT.IH [OF u(1) u(2) False] obtain w v where "w \<in> set (subtrees u)" "v \<in> set (subs w)" "rootA v = a"
      by blast
    then show ?thesis using u(1) by auto
  qed
qed

lemma parent_of_child:
  "parentsOk h t \<Longrightarrow> w \<in> set (subtrees t) \<Longrightarrow> v \<in> set (subs w) \<Longrightarrow> parent (h ! rootA v) = Some (rootA w)"
proof -
  assume p: "parentsOk h t" and w: "w \<in> set (subtrees t)" and v: "v \<in> set (subs w)"
  have "parentsOk h w" by (rule parentsOk_subtree [OF p w])
  then show ?thesis using v by (cases w) auto
qed

lemma distinct_subtree: "distinct (addrs t) \<Longrightarrow> u \<in> set (subtrees t) \<Longrightarrow> distinct (addrs u)"
proof (induction t)
  case (AT a ts)
  show ?case
  proof (cases "u = AT a ts")
    case True then show ?thesis using AT.prems by simp
  next
    case False
    then obtain v where v: "v \<in> set ts" "u \<in> set (subtrees v)" using AT.prems(2) by auto
    have "distinct (concat (map addrs ts))" using AT.prems(1) by simp
    then have "distinct (addrs v)" using v(1) by (auto simp: distinct_concat_iff)
    then show ?thesis using AT.IH v by blast
  qed
qed

lemma root_notin_child:
  "distinct (addrs w) \<Longrightarrow> v \<in> set (subs w) \<Longrightarrow> rootA w \<notin> set (addrs v)"
  by (cases w) auto

lemma rootA_exciseT [simp]: "rootA (exciseT L t) = rootA t"
  by (cases t) simp

lemma length_exciseH [simp]: "length (exciseH h P L) = length h"
  by (simp add: exciseH_def)

lemma parent_exciseH [simp]: "parent (exciseH h P L ! a) = parent (h ! a)"
  by (cases "a = P"; cases "P < length h") (simp_all add: exciseH_def list_update_beyond)

lemma children_exciseH:
  "P < length h \<Longrightarrow> children (exciseH h P L ! a) =
     (if a = P then filter (\<lambda>c. c \<noteq> L) (children (h ! P)) else children (h ! a))"
  by (simp add: exciseH_def)

lemma excise_reprT:
  "reprT h u \<Longrightarrow> parentsOk h u \<Longrightarrow> parent (h ! L) = Some P \<Longrightarrow> P < length h \<Longrightarrow>
   reprT (exciseH h P L) (exciseT L u)"
proof (induction u)
  case (AT a ts)
  have sub: "reprT (exciseH h P L) (exciseT L v)" if "v \<in> set ts" for v
    using AT.IH [OF that] AT.prems that by auto
  have "children (exciseH h P L ! a) = map rootA (map (exciseT L) (filter (\<lambda>t. rootA t \<noteq> L) ts))"
  proof (cases "a = P")
    case True
    then show ?thesis using AT.prems by (simp add: children_exciseH filter_map comp_def)
  next
    case False
    have "rootA v \<noteq> L" if "v \<in> set ts" for v
    proof
      assume "rootA v = L"
      then have "parent (h ! L) = Some a" using AT.prems(2) that by auto
      then show False using AT.prems(3) False by simp
    qed
    then have "filter (\<lambda>t. rootA t \<noteq> L) ts = ts" by (simp add: filter_id_conv)
    then show ?thesis using AT.prems False by (simp add: children_exciseH comp_def)
  qed
  then show ?case using AT.prems sub by auto
qed

lemma excise_parentsOk: "parentsOk h u \<Longrightarrow> parentsOk (exciseH h P L) (exciseT L u)"
  by (induction u) auto

lemma excise_addrs:
  "reprT h u \<Longrightarrow> children (h ! L) = [] \<Longrightarrow> rootA u \<noteq> L \<Longrightarrow>
   addrs (exciseT L u) = filter (\<lambda>a. a \<noteq> L) (addrs u)"
proof (induction u)
  case (AT a ts)
  have leafL: "addrs v = [L]" if "v \<in> set ts" "rootA v = L" for v
  proof -
    have "reprT h v" using AT.prems(1) that(1) by simp
    then show ?thesis using that(2) AT.prems(2) by (cases v) simp
  qed
  have IH: "addrs (exciseT L v) = filter (\<lambda>a. a \<noteq> L) (addrs v)" if "v \<in> set ts" "rootA v \<noteq> L" for v
    using AT.IH [OF that(1)] AT.prems that by simp
  have "concat (map addrs (map (exciseT L) (filter (\<lambda>t. rootA t \<noteq> L) us)))
        = filter (\<lambda>a. a \<noteq> L) (concat (map addrs us))" if "set us \<subseteq> set ts" for us
    using that
  proof (induction us)
    case Nil
    then show ?case by simp
  next
    case (Cons v us)
    then show ?case using leafL [of v] IH [of v] by (cases "rootA v = L") auto
  qed
  from this [of ts] show ?case using AT.prems(3) by simp
qed

lemma excise_wfT:
  assumes "wfT h r t" "L \<noteq> r" "children (h ! L) = []" "parent (h ! L) = Some P" "P < length h"
  shows "wfT (exciseH h P L) r (exciseT L t)"
    and "addrs (exciseT L t) = filter (\<lambda>a. a \<noteq> L) (addrs t)"
proof -
  from assms(1) have rt: "rootA t = r" and rp: "reprT h t" and po: "parentsOk h t"
    and di: "distinct (addrs t)" and pr: "parent (h ! r) = None" by (simp_all add: wfT_def)
  show ad: "addrs (exciseT L t) = filter (\<lambda>a. a \<noteq> L) (addrs t)"
    using excise_addrs [OF rp assms(3)] rt assms(2) by simp
  show "wfT (exciseH h P L) r (exciseT L t)"
    using excise_reprT [OF rp po assms(4,5)] excise_parentsOk [OF po] rt di pr
    by (simp add: wfT_def ad)
qed

lemma rootA_graft1 [simp]: "rootA (graft1 G c t) = rootA t"
  by (cases t) simp

lemma graft_reprT:
  "reprT h t \<Longrightarrow> reprT h c \<Longrightarrow> G \<notin> set (addrs c) \<Longrightarrow> G < length h \<Longrightarrow>
   reprT (push_child h G (rootA c)) (graft1 G c t)"
proof (induction t)
  case (AT a ts)
  have sub: "reprT (push_child h G (rootA c)) (graft1 G c v)" if "v \<in> set ts" for v
    using AT.IH [OF that] AT.prems that by auto
  have c: "reprT (push_child h G (rootA c)) c"
    by (rule reprT_push_other [OF AT.prems(2,3)])
  have "children (push_child h G (rootA c) ! a) = map rootA (map (graft1 G c) ts @ (if a = G then [c] else []))"
    using AT.prems by (auto simp: children_push_child comp_def)
  then show ?case using AT.prems sub c by auto
qed

lemma graft_parentsOk:
  "parentsOk h t \<Longrightarrow> parentsOk h c \<Longrightarrow> parent (h ! rootA c) = Some G \<Longrightarrow>
   parentsOk (push_child h G x) (graft1 G c t)"
  unfolding parentsOk_push
  by (induction t) auto

lemma graft_addrs:
  "distinct (addrs t) \<Longrightarrow> distinct (addrs c) \<Longrightarrow> set (addrs c) \<inter> set (addrs t) = {} \<Longrightarrow>
   distinct (addrs (graft1 G c t))
   \<and> set (addrs (graft1 G c t)) = set (addrs t) \<union> (if G \<in> set (addrs t) then set (addrs c) else {})"
proof (induction t)
  case (AT a ts)
  let ?g = "graft1 G c"
  let ?C = "set (addrs c)"
  have IHt: "distinct (addrs (?g v)) \<and> set (addrs (?g v)) = set (addrs v) \<union> (if G \<in> set (addrs v) then ?C else {})"
    if "v \<in> set ts" "distinct (addrs v)" for v
  proof -
    have "?C \<inter> set (addrs v) = {}" using AT.prems(3) that(1) by auto
    then show ?thesis using AT.IH [OF that(1) that(2) AT.prems(2)] by simp
  qed
  have inner: "distinct (concat (map addrs (map ?g us)))
      \<and> set (concat (map addrs (map ?g us))) = set (concat (map addrs us))
           \<union> (if G \<in> set (concat (map addrs us)) then ?C else {})"
    if "set us \<subseteq> set ts" "distinct (concat (map addrs us))" for us
    using that
  proof (induction us)
    case Nil
    then show ?case by simp
  next
    case (Cons v us)
    from Cons.prems have v: "v \<in> set ts" and dv: "distinct (addrs v)"
      and dus: "distinct (concat (map addrs us))"
      and dj: "set (addrs v) \<inter> set (concat (map addrs us)) = {}" by auto
    have cv: "?C \<inter> set (addrs v) = {}" using AT.prems(3) v by auto
    have cus: "?C \<inter> set (concat (map addrs us)) = {}" using AT.prems(3) Cons.prems(1) by auto
    note 1 = IHt [OF v dv]
    have 2: "distinct (concat (map addrs (map ?g us)))
      \<and> set (concat (map addrs (map ?g us))) = set (concat (map addrs us))
           \<union> (if G \<in> set (concat (map addrs us)) then ?C else {})"
      using Cons.IH Cons.prems(1) dus by simp
    have "set (addrs (?g v)) \<inter> set (concat (map addrs (map ?g us))) = {}"
      using 1 2 dj cv cus by (auto split: if_splits)
    then show ?case using 1 2 by (auto split: if_splits)
  qed
  have d: "distinct (concat (map addrs ts))" and a: "a \<notin> set (concat (map addrs ts))"
    using AT.prems(1) by simp_all
  have ca: "a \<notin> ?C" and cts: "?C \<inter> set (concat (map addrs ts)) = {}" using AT.prems(3) by auto
  note 3 = inner [OF subset_refl d]
  show ?case
  proof (cases "a = G")
    case True
    then have "G \<notin> set (concat (map addrs ts))" using a by simp
    then show ?thesis using 3 True a ca cts AT.prems(2) by (auto split: if_splits)
  next
    case False
    then show ?thesis using 3 a ca cts by (auto split: if_splits)
  qed
qed

lemma graft_wfT:
  assumes "wfT h r t" "G \<in> set (addrs t)" "reprT h c" "parentsOk h c" "distinct (addrs c)"
    "set (addrs c) \<inter> set (addrs t) = {}" "parent (h ! rootA c) = Some G"
  shows "wfT (push_child h G (rootA c)) r (graft1 G c t)"
    and "set (addrs (graft1 G c t)) = set (addrs t) \<union> set (addrs c)"
proof -
  from assms(1) have rt: "rootA t = r" and rp: "reprT h t" and po: "parentsOk h t"
    and di: "distinct (addrs t)" and pr: "parent (h ! r) = None" by (simp_all add: wfT_def)
  have Gc: "G \<notin> set (addrs c)" using assms(2,6) by auto
  have Gl: "G < length h" using reprT_addrs_lt [OF rp assms(2)] .
  note ga = graft_addrs [OF di assms(5,6), of G]
  show "set (addrs (graft1 G c t)) = set (addrs t) \<union> set (addrs c)" using ga assms(2) by simp
  show "wfT (push_child h G (rootA c)) r (graft1 G c t)"
    using graft_reprT [OF rp assms(3) Gc Gl] graft_parentsOk [OF po assms(4,7)] ga rt pr
    by (simp add: wfT_def)
qed

lemma copied_copiedH: "copied s s' t p \<Longrightarrow> copiedH (heap s) (heap s') t p"
  by (simp add: copied_def)

lemma wfT_take:
  assumes "wfT h r t" "take (length h) h' = h" shows "wfT h' r t"
proof -
  from assms(1) have rt: "rootA t = r" and rp: "reprT h t" and po: "parentsOk h t"
    and di: "distinct (addrs t)" and pr: "parent (h ! r) = None" by (simp_all add: wfT_def)
  have "r < length h" using reprT_addrs_lt [OF rp] rootA_in_addrs [of t] rt by blast
  then have "h' ! r = h ! r" using assms(2) by (metis nth_take)
  then show ?thesis
    using reprT_take [OF rp assms(2)] parentsOk_take [OF po rp assms(2)] rt di pr
    by (simp add: wfT_def)
qed

lemma regrown_init:
  assumes "wfT h2 r t2" "u \<in> set (subtrees t2)"
  shows "regrown h2 h2 r t2 G u 0"
  using assms by (auto simp: regrown_def wfT_def intro: reprT_subtree)

lemma regrown_step:
  assumes inv: "regrown h2 hi r t2 G u i"
    and cp: "copiedH hi h'' u (Some G)"
    and G: "G \<in> set (addrs t2)" and Gu: "G \<notin> set (addrs u)"
    and old: "\<forall>a \<in> set (addrs t2). a < length h2"
  shows "regrown h2 (push_child h'' G (length hi)) r t2 G u (Suc i)"
proof -
  let ?b = "length h2" and ?k = "length (addrs u)"
  let ?T = "graftCopies G u ?b i t2"
  let ?c = "relabel (length hi) u"
  let ?h = "push_child h'' G (length hi)"
  from inv have len: "length hi = ?b + i * ?k" and wf: "wfT hi r ?T"
    and st: "set (addrs ?T) = set (addrs t2) \<union> {?b ..< ?b + i * ?k}"
    and ru: "reprT hi u"
    and fr: "\<forall>a < ?b. a \<noteq> G \<longrightarrow> hi ! a = h2 ! a"
    and chG: "children (hi ! G) = children (h2 ! G) @ map (\<lambda>j. ?b + j * ?k) [0..<i]"
    and paG: "parent (hi ! G) = parent (h2 ! G)"
    and cps: "\<forall>j < i. reprT hi (relabel (?b + j * ?k) u) \<and> parentsOk hi (relabel (?b + j * ?k) u)
               \<and> parent (hi ! (?b + j * ?k)) = Some G"
    by (simp_all add: regrown_def)
  from cp have len': "length h'' = length hi + ?k" and tk: "take (length hi) h'' = hi"
    and rc: "reprT h'' ?c" and pc: "parentsOk h'' ?c" and parc: "parent (h'' ! length hi) = Some G"
    by (simp_all add: copiedH_def)
  have Gb: "G < ?b" using G old by blast
  have Gi: "G < length hi" using Gb len by simp
  have nth: "h'' ! a = hi ! a" if "a < length hi" for a using tk that by (metis nth_take)
  have ac: "addrs ?c = [length hi ..< length hi + ?k]" by (rule addrs_relabel)
  have dc: "distinct (addrs ?c)" by (simp add: ac)
  have disj: "set (addrs ?c) \<inter> set (addrs ?T) = {}"
    using st ac len old by auto
  have GT: "G \<in> set (addrs ?T)" using st G by simp
  have wf'': "wfT h'' r ?T" by (rule wfT_take [OF wf tk])
  have parc': "parent (h'' ! rootA ?c) = Some G" using parc by simp
  note gw = graft_wfT [OF wf'' GT rc pc dc disj parc']
  have T': "graftCopies G u ?b (Suc i) t2 = graft1 G ?c ?T" by (simp add: len)
  have 1: "wfT ?h r (graftCopies G u ?b (Suc i) t2)" using gw(1) T' by simp
  have 2: "set (addrs (graftCopies G u ?b (Suc i) t2)) = set (addrs t2) \<union> {?b ..< ?b + Suc i * ?k}"
    using gw(2) T' st ac len by auto
  have 3: "reprT ?h u" by (rule reprT_push_other [OF reprT_take [OF ru tk] Gu])
  have 4: "\<forall>a < ?b. a \<noteq> G \<longrightarrow> ?h ! a = h2 ! a"
  proof (intro allI impI)
    fix a assume a: "a < ?b" "a \<noteq> G"
    then have "?h ! a = h'' ! a" by (simp add: push_child_def)
    also have "\<dots> = hi ! a" using nth a(1) len by simp
    finally show "?h ! a = h2 ! a" using fr a by simp
  qed
  have Gl'': "G < length h''" using Gi len' by simp
  have 5: "children (?h ! G) = children (h2 ! G) @ map (\<lambda>j. ?b + j * ?k) [0..<Suc i]"
    using chG nth [OF Gi] Gl'' len by (simp add: children_push_child)
  have 6: "parent (?h ! G) = parent (h2 ! G)" using paG nth [OF Gi] by simp
  have 7: "reprT ?h (relabel (?b + j * ?k) u) \<and> parentsOk ?h (relabel (?b + j * ?k) u)
               \<and> parent (?h ! (?b + j * ?k)) = Some G" if "j < Suc i" for j
  proof (cases "j = i")
    case True
    have "G \<notin> set (addrs ?c)" using ac Gi by simp
    then have "reprT ?h ?c" using rc by (rule reprT_push_other [rotated])
    then show ?thesis using True pc parc len by (simp add: parentsOk_push)
  next
    case False
    then have j: "j < i" using that by simp
    let ?cj = "relabel (?b + j * ?k) u"
    from cps j have rj: "reprT hi ?cj" and pj: "parentsOk hi ?cj" and parj: "parent (hi ! (?b + j * ?k)) = Some G"
      by simp_all
    have "G \<notin> set (addrs ?cj)" using Gb by (simp add: addrs_relabel)
    then have "reprT ?h ?cj" using reprT_take [OF rj tk] by (rule reprT_push_other [rotated])
    moreover have "parentsOk ?h ?cj" using parentsOk_take [OF pj rj tk] by (simp add: parentsOk_push)
    moreover have "?b + j * ?k < length hi"
      using reprT_addrs_lt [OF rj rootA_in_addrs] by simp
    then have "parent (?h ! (?b + j * ?k)) = Some G" using parj nth by simp
    ultimately show ?thesis by simp
  qed
  have 0: "length ?h = ?b + Suc i * ?k" using len len' by simp
  show ?thesis unfolding regrown_def using 0 1 2 3 4 5 6 7 by blast
qed

lemma height_le_iff: "height (AT a ts) \<le> n \<longleftrightarrow> (\<forall>v \<in> set ts. height v < n)"
  by (induction ts) (auto simp: Suc_le_eq)

lemma height_subtree: "u \<in> set (subtrees t) \<Longrightarrow> height u \<le> height t"
proof (induction t)
  case (AT a ts)
  show ?case
  proof (cases "u = AT a ts")
    case True then show ?thesis by simp
  next
    case False
    then obtain v where v: "v \<in> set ts" "u \<in> set (subtrees v)" using AT.prems by auto
    have "height u \<le> height v" using AT.IH [OF v] .
    also have "height v < height (AT a ts)" by (rule height_sub [OF v(1)])
    finally show ?thesis by simp
  qed
qed

lemma height_exciseT: "height (exciseT L t) \<le> height t"
proof (induction t)
  case (AT a ts)
  have "height v < Suc (height (AT a ts))" if "v \<in> set ts" for v
    using height_sub [OF that, of a] by simp
  have "\<forall>v \<in> set (map (exciseT L) (filter (\<lambda>t. rootA t \<noteq> L) ts)). height v < height (AT a ts)"
  proof
    fix v' assume "v' \<in> set (map (exciseT L) (filter (\<lambda>t. rootA t \<noteq> L) ts))"
    then obtain v where v: "v \<in> set ts" "v' = exciseT L v" by auto
    have "height v' \<le> height v" using AT.IH [OF v(1)] v(2) by simp
    also have "height v < height (AT a ts)" by (rule height_sub [OF v(1)])
    finally show "height v' < height (AT a ts)" .
  qed
  then show ?case using height_le_iff [of a "map (exciseT L) (filter (\<lambda>t. rootA t \<noteq> L) ts)" "height (AT a ts)"]
    by simp
qed

lemma hasTall_sub: "hasTall G k (AT a ts) \<Longrightarrow> v \<in> set ts \<Longrightarrow> hasTall G k v"
  by (auto simp: hasTall_def)

lemma height_graft1:
  "height t \<le> n \<Longrightarrow> hasTall G (height c) t \<Longrightarrow> height (graft1 G c t) \<le> n"
proof (induction t arbitrary: n)
  case (AT a ts)
  from AT.prems(1) have lt: "\<forall>v \<in> set ts. height v < n" by (simp only: height_le_iff)
  have 1: "height (graft1 G c v) < n" if "v \<in> set ts" for v
  proof -
    have "height v \<le> n - 1" using lt that by fastforce
    from AT.IH [OF that this hasTall_sub [OF AT.prems(2) that]] lt that show ?thesis by fastforce
  qed
  have 2: "height c < n" if "a = G"
  proof -
    have "AT a ts \<in> set (subtrees (AT a ts))" by simp
    with AT.prems(2) that obtain v where "v \<in> set ts" "height c \<le> height v"
      unfolding hasTall_def by fastforce
    then show ?thesis using lt by fastforce
  qed
  show ?case unfolding graft1.simps height_le_iff using 1 2 by auto
qed

lemma subtrees_graft1:
  "w' \<in> set (subtrees (graft1 G c t)) \<Longrightarrow>
   (\<exists>w \<in> set (subtrees t). w' = graft1 G c w) \<or> w' \<in> set (subtrees c)"
proof (induction t)
  case (AT a ts)
  show ?case
  proof (cases "w' = graft1 G c (AT a ts)")
    case True
    then show ?thesis using self_subtree [of "AT a ts"] by blast
  next
    case False
    with AT.prems consider v where "v \<in> set ts" "w' \<in> set (subtrees (graft1 G c v))"
      | "a = G" "w' \<in> set (subtrees c)" by (auto split: if_splits)
    then show ?thesis
    proof cases
      case 1
      from AT.IH [OF 1] 1(1) show ?thesis by auto
    next
      case 2
      then show ?thesis by simp
    qed
  qed
qed

lemma hasTall_graft1:
  assumes "G \<notin> set (addrs c)" "k \<le> height c"
  shows "hasTall G k (graft1 G c t)"
  unfolding hasTall_def
proof (intro ballI impI)
  fix w' assume w': "w' \<in> set (subtrees (graft1 G c t))" and r: "rootA w' = G"
  from subtrees_graft1 [OF w'] show "\<exists>v \<in> set (subs w'). k \<le> height v"
  proof
    assume "\<exists>w \<in> set (subtrees t). w' = graft1 G c w"
    then obtain w where w: "w' = graft1 G c w" by blast
    obtain a ts where "w = AT a ts" by (cases w)
    then have "c \<in> set (subs w')" using w r by simp
    then show ?thesis using assms(2) by blast
  next
    assume "w' \<in> set (subtrees c)"
    then have "rootA w' \<in> set (addrs c)" by (simp add: addrs_subtrees)
    then show ?thesis using assms(1) r by simp
  qed
qed

lemma height_graftCopies:
  assumes "hasTall G (height u) t" "G \<notin> set (addrs u)" "G < b"
  shows "height (graftCopies G u b i t) \<le> height t \<and> hasTall G (height u) (graftCopies G u b i t)"
proof (induction i)
  case 0
  then show ?case using assms(1) by simp
next
  case (Suc i)
  let ?c = "relabel (b + i * length (addrs u)) u"
  have hc: "height ?c = height u" by (rule height_relabel)
  have Gc: "G \<notin> set (addrs ?c)" using assms(3) by (simp add: addrs_relabel)
  have "height (graft1 G ?c (graftCopies G u b i t)) \<le> height t"
    using Suc by (intro height_graft1) (simp_all add: hc)
  moreover have "hasTall G (height u) (graft1 G ?c (graftCopies G u b i t))"
    by (rule hasTall_graft1 [OF Gc]) (simp add: hc)
  ultimately show ?case by simp
qed

lemma leaf_parent_facts:
  assumes "wfT h r t" "L \<in> set (addrs t)" "L \<noteq> r" "parent (h ! L) = Some P"
  shows "P \<in> set (addrs t)" "P \<noteq> L" "L \<in> set (children (h ! P))" "P < length h"
proof -
  from assms(1) have rt: "rootA t = r" and rp: "reprT h t" and po: "parentsOk h t"
    and di: "distinct (addrs t)" by (simp_all add: wfT_def)
  from nonroot_has_parent [of L t] assms(2,3) rt
  obtain w v where w: "w \<in> set (subtrees t)" and v: "v \<in> set (subs w)" and rv: "rootA v = L" by auto
  have "parent (h ! L) = Some (rootA w)" using parent_of_child [OF po w v] rv by simp
  then have Pw: "rootA w = P" using assms(4) by simp
  show Pin: "P \<in> set (addrs t)" using w Pw by (auto simp: addrs_subtrees)
  show "P < length h" by (rule reprT_addrs_lt [OF rp Pin])
  have "rootA w \<notin> set (addrs v)" by (rule root_notin_child [OF distinct_subtree [OF di w] v])
  then show "P \<noteq> L" using Pw rv rootA_in_addrs [of v] by auto
  have "reprT h w" by (rule reprT_subtree [OF rp w])
  then have "children (h ! P) = map rootA (subs w)" using Pw by (cases w) auto
  then show "L \<in> set (children (h ! P))" using v rv by auto
qed

lemma regrow_site:
  assumes "wfT h r t" "P \<in> set (addrs t)" "P \<noteq> r"
  obtains G u where "parent (h ! P) = Some G" "u \<in> set (subtrees t)" "rootA u = P"
    "G \<in> set (addrs t)" "G \<notin> set (addrs u)" "hasTall G (height u) t"
proof -
  from assms(1) have rt: "rootA t = r" and rp: "reprT h t" and po: "parentsOk h t"
    and di: "distinct (addrs t)" by (simp_all add: wfT_def)
  from nonroot_has_parent [of P t] assms(2,3) rt
  obtain w u where w: "w \<in> set (subtrees t)" and u: "u \<in> set (subs w)" and ru: "rootA u = P" by auto
  have 1: "parent (h ! P) = Some (rootA w)" using parent_of_child [OF po w u] ru by simp
  have 2: "u \<in> set (subtrees t)" by (rule sub_subtree [OF w u])
  have 3: "rootA w \<in> set (addrs t)" using w by (auto simp: addrs_subtrees)
  have 4: "rootA w \<notin> set (addrs u)" by (rule root_notin_child [OF distinct_subtree [OF di w] u])
  have 5: "hasTall (rootA w) (height u) t"
    unfolding hasTall_def
  proof (intro ballI impI)
    fix w' assume "w' \<in> set (subtrees t)" "rootA w' = rootA w"
    then have "w' = w" using subtree_unique [OF di _ w] by blast
    then show "\<exists>v \<in> set (subs w'). height u \<le> height v" using u by blast
  qed
  show thesis using that [OF 1 2 ru 3 4 5] .
qed

lemma chop_loop:
  assumes wf: "wfT (heap s2) r t2" and u: "u \<in> set (subtrees t2)" and G: "G \<in> set (addrs t2)"
    and Gu: "G \<notin> set (addrs u)" and fuel: "height u < fuel"
  shows "\<exists>s3. forEach [0..<N] (chopBody fuel (rootA u) (Some G)) s2 = Inr s3
          \<and> regrown (heap s2) (heap s3) r t2 G u N
          \<and> root s3 = root s2 \<and> step s3 = step s2 \<and> reducedGrowth s3 = reducedGrowth s2"
proof (induction N)
  case 0
  then show ?case using regrown_init [OF wf u] by simp
next
  case (Suc N)
  then obtain sN where fe: "forEach [0..<N] (chopBody fuel (rootA u) (Some G)) s2 = Inr sN"
    and inv: "regrown (heap s2) (heap sN) r t2 G u N"
    and fl: "root sN = root s2" "step sN = step s2" "reducedGrowth sN = reducedGrowth s2" by blast
  from inv have ru: "reprT (heap sN) u" by (simp add: regrown_def)
  from deepCopy_exact [OF ru fuel, of "Some G"]
  obtain s'' where dc: "deepCopy fuel sN (rootA u) (Some G) = Inr (s'', length (heap sN))"
    and cp: "copied sN s'' u (Some G)" by blast
  have old: "\<forall>a \<in> set (addrs t2). a < length (heap s2)"
    using wf reprT_addrs_lt by (auto simp: wfT_def)
  note st = regrown_step [OF inv copied_copiedH [OF cp] G Gu old]
  let ?s3 = "s''\<lparr>heap := push_child (heap s'') G (length (heap sN))\<rparr>"
  have "chopBody fuel (rootA u) (Some G) sN N = Inr ?s3"
    using dc by (simp add: chopBody_def)
  then have "forEach [0..<Suc N] (chopBody fuel (rootA u) (Some G)) s2 = Inr ?s3"
    using fe by (simp add: forEach_append)
  moreover have "root ?s3 = root s2 \<and> step ?s3 = step s2 \<and> reducedGrowth ?s3 = reducedGrowth s2"
    using cp fl by (simp add: copied_def)
  ultimately show ?case using st by (intro exI [of _ ?s3]) simp
qed

lemma regrown_cutRegrown:
  assumes rg: "regrown (exciseH h P L) h3 r (exciseT L t) G u N"
    and P: "P < length h" and G: "G < length h" and GP: "G \<noteq> P"
  shows "cutRegrown h h3 r t L P G u N"
proof -
  let ?h2 = "exciseH h P L"
  from rg have fr: "\<forall>a < length h. a \<noteq> G \<longrightarrow> h3 ! a = ?h2 ! a"
    and chG: "children (h3 ! G) = children (?h2 ! G) @ map (\<lambda>j. length h + j * length (addrs u)) [0..<N]"
    and paG: "parent (h3 ! G) = parent (?h2 ! G)"
    by (simp_all add: regrown_def)
  have 1: "\<forall>a < length h. parent (h3 ! a) = parent (h ! a)"
  proof (intro allI impI)
    fix a assume "a < length h"
    then show "parent (h3 ! a) = parent (h ! a)" using fr paG by (cases "a = G") simp_all
  qed
  have 2: "\<forall>a < length h. a \<noteq> P \<longrightarrow> a \<noteq> G \<longrightarrow> children (h3 ! a) = children (h ! a)"
    using fr P by (simp add: children_exciseH)
  have 3: "children (h3 ! P) = filter (\<lambda>c. c \<noteq> L) (children (h ! P))"
    using fr P GP by (simp add: children_exciseH)
  have 4: "children (h3 ! G) = children (h ! G) @ map (\<lambda>j. length h + j * length (addrs u)) [0..<N]"
    using chG P GP by (simp add: children_exciseH)
  show ?thesis using rg 1 2 3 4 by (simp add: regrown_def cutRegrown_def)
qed

lemma cutRegrown_struct:
  assumes cr: "cutRegrown h h3 r t L P G u N" and st: "struct h3 = struct h'"
    and P: "P < length h" and G: "G < length h"
  shows "cutRegrown h h' r t L P G u N"
proof -
  let ?b = "length h" and ?k = "length (addrs u)"
  from cr have len: "length h3 = ?b + N * ?k"
    and wf: "wfT h3 r (graftCopies G u ?b N (exciseT L t))"
    and ru: "reprT h3 u"
    and cps: "\<forall>j < N. reprT h3 (relabel (?b + j * ?k) u) \<and> parentsOk h3 (relabel (?b + j * ?k) u)
               \<and> parent (h3 ! (?b + j * ?k)) = Some G"
    by (simp_all add: cutRegrown_def)
  have ch: "children (h' ! a) = children (h3 ! a)" and pa: "parent (h' ! a) = parent (h3 ! a)"
    if "a < length h3" for a using struct_nth [OF st that] by simp_all
  have lt: "a < length h3" if "a < ?b" for a using len that by simp
  have 5: "reprT h' (relabel (?b + j * ?k) u) \<and> parentsOk h' (relabel (?b + j * ?k) u)
               \<and> parent (h' ! (?b + j * ?k)) = Some G" if "j < N" for j
  proof -
    from cps that have r: "reprT h3 (relabel (?b + j * ?k) u)" and p: "parentsOk h3 (relabel (?b + j * ?k) u)"
      and q: "parent (h3 ! (?b + j * ?k)) = Some G" by simp_all
    have "?b + j * ?k < length h3" using reprT_addrs_lt [OF r rootA_in_addrs] by simp
    then show ?thesis using reprT_struct [OF st r] parentsOk_struct [OF st r p] q pa by simp
  qed
  have "length h' = ?b + N * ?k" using struct_length [OF st] len by simp
  moreover have "wfT h' r (graftCopies G u ?b N (exciseT L t))" by (rule wfT_struct [OF st wf])
  moreover have "reprT h' u" by (rule reprT_struct [OF st ru])
  ultimately show ?thesis using cr 5 ch pa lt P G by (simp add: cutRegrown_def)
qed

lemma cutAtRoot_struct:
  assumes cr: "cutAtRoot h h3 r t L" and st: "struct h3 = struct h'" and r: "r < length h"
  shows "cutAtRoot h h' r t L"
proof -
  from cr have len: "length h3 = length h" and wf: "wfT h3 r (exciseT L t)" by (simp_all add: cutAtRoot_def)
  have ch: "children (h' ! a) = children (h3 ! a)" and pa: "parent (h' ! a) = parent (h3 ! a)"
    if "a < length h" for a using struct_nth [OF st] that len by simp_all
  have "length h' = length h" using struct_length [OF st] len by simp
  moreover have "wfT h' r (exciseT L t)" by (rule wfT_struct [OF st wf])
  ultimately show ?thesis using cr ch pa r by (simp add: cutAtRoot_def)
qed

lemma exciseH_cutAtRoot:
  assumes "wfT h r t" "L \<noteq> r" "children (h ! L) = []" "parent (h ! L) = Some r" "r < length h"
  shows "cutAtRoot h (exciseH h r L) r t L"
  using excise_wfT(1) [OF assms] assms(5) by (simp add: cutAtRoot_def children_exciseH)

lemma chop_unfold:
  "parent (heap s ! L) = Some P \<Longrightarrow>
   chop fuel s L =
     (case (if P \<noteq> root s
            then forEach [0..<(if reducedGrowth s then 1 else step s + 1)]
                   (chopBody fuel P (parent (exciseH (heap s) P L ! P)))
                   (s\<lparr>step := step s + 1, heap := exciseH (heap s) P L\<rparr>)
            else Inr (s\<lparr>step := step s + 1, heap := exciseH (heap s) P L\<rparr>)) of
        Inl e \<Rightarrow> Inl e
      | Inr s3 \<Rightarrow> redraw fuel s3)"
  by (simp add: chop_def chopBody_def exciseH_def Let_def)

lemma chop_at_root:
  assumes wf: "wfT (heap s) (root s) t" and L: "L \<in> set (addrs t)" and leaf: "isLeaf s L"
    and P: "parent (heap s ! L) = Some (root s)" and fuel: "height t < fuel"
  shows "\<exists>s'. chop fuel s L = Inr s' \<and> cutAtRoot (heap s) (heap s') (root s) t L
           \<and> step s' = step s + 1 \<and> root s' = root s \<and> reducedGrowth s' = reducedGrowth s"
proof -
  from leaf have Lr: "L \<noteq> root s" and ch: "children (heap s ! L) = []" by (simp_all add: isLeaf_def)
  note pf = leaf_parent_facts [OF wf L Lr P]
  let ?s2 = "s\<lparr>step := step s + 1, heap := exciseH (heap s) (root s) L\<rparr>"
  have car: "cutAtRoot (heap s) (heap ?s2) (root s) t L"
    using exciseH_cutAtRoot [OF wf Lr ch P pf(4)] by simp
  then have wf2: "wfT (heap ?s2) (root ?s2) (exciseT L t)" by (simp add: cutAtRoot_def)
  have h2: "height (exciseT L t) < fuel" using height_exciseT [of L t] fuel by simp
  from wf2 have "reprT (heap ?s2) (exciseT L t)" "rootA (exciseT L t) = root ?s2" by (simp_all add: wfT_def)
  from redraw_ok [OF this h2]
  obtain s' where rd: "redraw fuel ?s2 = Inr s'" and st: "struct (heap s') = struct (heap ?s2)"
    and fl: "root s' = root ?s2" "step s' = step ?s2" "reducedGrowth s' = reducedGrowth ?s2" by blast
  have "chop fuel s L = Inr s'" using rd by (simp add: chop_unfold [OF P])
  moreover have "cutAtRoot (heap s) (heap s') (root s) t L"
    by (rule cutAtRoot_struct [OF car st [symmetric] pf(4)])
  ultimately show ?thesis using fl by simp
qed

lemma chop_regrow:
  assumes wf: "wfT (heap s) (root s) t" and L: "L \<in> set (addrs t)" and leaf: "isLeaf s L"
    and P: "parent (heap s ! L) = Some P" and Pr: "P \<noteq> root s" and fuel: "height t < fuel"
  shows "\<exists>s' G u. chop fuel s L = Inr s' \<and> parent (heap s ! P) = Some G
           \<and> u \<in> set (subtrees (exciseT L t)) \<and> rootA u = P
           \<and> G \<in> set (addrs t) \<and> G \<noteq> P \<and> G \<noteq> L \<and> P \<in> set (addrs t)
           \<and> cutRegrown (heap s) (heap s') (root s) t L P G u (if reducedGrowth s then 1 else step s + 1)
           \<and> height (graftCopies G u (length (heap s)) (if reducedGrowth s then 1 else step s + 1) (exciseT L t))
               \<le> height t
           \<and> step s' = step s + 1 \<and> root s' = root s \<and> reducedGrowth s' = reducedGrowth s"
proof -
  let ?N = "if reducedGrowth s then 1 else step s + 1"
  let ?h2 = "exciseH (heap s) P L" and ?t2 = "exciseT L t"
  from leaf have Lr: "L \<noteq> root s" and ch: "children (heap s ! L) = []" by (simp_all add: isLeaf_def)
  note pf = leaf_parent_facts [OF wf L Lr P]
  note ex = excise_wfT [OF wf Lr ch P pf(4)]
  have Pin2: "P \<in> set (addrs ?t2)" using ex(2) pf(1,2) by simp
  from regrow_site [OF ex(1) Pin2 Pr]
  obtain G u where G: "parent (?h2 ! P) = Some G" and u: "u \<in> set (subtrees ?t2)" and ru: "rootA u = P"
    and Gin: "G \<in> set (addrs ?t2)" and Gu: "G \<notin> set (addrs u)" and tall: "hasTall G (height u) ?t2"
    by blast
  have GP: "G \<noteq> P" using Gu ru rootA_in_addrs [of u] by auto
  have Gt: "G \<in> set (addrs t)" and GL: "G \<noteq> L" using Gin ex(2) by simp_all
  have Gl: "G < length (heap s)" using wf Gt reprT_addrs_lt by (auto simp: wfT_def)
  have hu: "height u < fuel"
    using height_subtree [OF u] height_exciseT [of L t] fuel by simp
  let ?s2 = "s\<lparr>step := step s + 1, heap := ?h2\<rparr>"
  have wf2: "wfT (heap ?s2) (root s) ?t2" using ex(1) by simp
  from chop_loop [OF wf2 u Gin Gu hu, of ?N]
  obtain s3 where fe: "forEach [0..<?N] (chopBody fuel P (Some G)) ?s2 = Inr s3"
    and rg: "regrown ?h2 (heap s3) (root s) ?t2 G u ?N"
    and fl3: "root s3 = root s" "step s3 = step s + 1" "reducedGrowth s3 = reducedGrowth s"
    using ru by auto
  have cr3: "cutRegrown (heap s) (heap s3) (root s) t L P G u ?N"
    by (rule regrown_cutRegrown [OF rg pf(4) Gl GP])
  let ?T = "graftCopies G u (length (heap s)) ?N ?t2"
  have hT: "height ?T \<le> height ?t2"
    using height_graftCopies [OF tall Gu Gl] by blast
  then have hT': "height ?T \<le> height t" using height_exciseT [of L t] by simp
  from cr3 have wf3: "wfT (heap s3) (root s) ?T" by (simp add: cutRegrown_def)
  then have "reprT (heap s3) ?T" "rootA ?T = root s3" using fl3 by (simp_all add: wfT_def)
  moreover have "height ?T < fuel" using hT' fuel by simp
  ultimately obtain s' where rd: "redraw fuel s3 = Inr s'" and st: "struct (heap s') = struct (heap s3)"
    and fl: "root s' = root s3" "step s' = step s3" "reducedGrowth s' = reducedGrowth s3"
    using redraw_ok by blast
  have "chop fuel s L = Inr s'" using rd fe G Pr by (simp add: chop_unfold [OF P])
  moreover have "cutRegrown (heap s) (heap s') (root s) t L P G u ?N"
    by (rule cutRegrown_struct [OF cr3 st [symmetric] pf(4) Gl])
  moreover have "parent (heap s ! P) = Some G" using G by simp
  ultimately show ?thesis using u ru Gt GP GL pf(1) hT' fl fl3 by auto
qed

lemma parentsOk_cong_below:
  "parentsOk h t \<Longrightarrow>
   (\<forall>a \<in> set (concat (map addrs (subs t))). parent (h' ! a) = parent (h ! a)) \<Longrightarrow> parentsOk h' t"
proof (cases t)
  case (AT a ts)
  assume p: "parentsOk h t" and eq: "\<forall>a \<in> set (concat (map addrs (subs t))). parent (h' ! a) = parent (h ! a)"
  have "parent (h' ! rootA u) = Some a \<and> parentsOk h' u" if "u \<in> set ts" for u
  proof -
    have pu: "parent (h ! rootA u) = Some a" "parentsOk h u" using p AT that by auto
    have sub: "\<forall>x \<in> set (addrs u). parent (h' ! x) = parent (h ! x)" using eq AT that by auto
    then have "parent (h' ! rootA u) = parent (h ! rootA u)" using rootA_in_addrs by blast
    then show ?thesis using pu parentsOk_cong [OF pu(2) sub] by simp
  qed
  then show ?thesis using AT by simp
qed

lemma copiedH_set_parent:
  assumes "copiedH h h' t p"
  shows "copiedH h (h'[length h := (h' ! length h)\<lparr>parent := q\<rparr>]) t q"
proof -
  let ?b = "length h"
  let ?h = "h'[?b := (h' ! ?b)\<lparr>parent := q\<rparr>]"
  from assms have len: "length h' = ?b + length (addrs t)" and tk: "take ?b h' = h"
    and rp: "reprT h' (relabel ?b t)" and po: "parentsOk h' (relabel ?b t)"
    by (simp_all add: copiedH_def)
  have blt: "?b < length h'" using len length_addrs_pos [of t] by simp
  have 1: "reprT ?h (relabel ?b t)"
    by (rule reprT_cong [OF rp]) (use blt in \<open>auto simp: nth_list_update\<close>)
  have "\<forall>a \<in> set (concat (map addrs (subs (relabel ?b t)))). a \<noteq> ?b"
  proof (cases t)
    case (AT a ts)
    have "Suc ?b \<le> x" if "u \<in> set (relabels (Suc ?b) ts)" "x \<in> set (addrs u)" for u x
      using addrs_relabels_mem [OF that] by simp
    then show ?thesis using AT by fastforce
  qed
  then have "\<forall>a \<in> set (concat (map addrs (subs (relabel ?b t)))). parent (?h ! a) = parent (h' ! a)"
    by (metis nth_list_update_neq)
  then have 2: "parentsOk ?h (relabel ?b t)" by (rule parentsOk_cong_below [OF po])
  show ?thesis using len tk 1 2 blt by (simp add: copiedH_def)
qed

lemma cloneSubtree_exact:
  "reprT (sheap s) t \<Longrightarrow> height t < fuel \<Longrightarrow>
   \<exists>s'. cloneSubtree fuel s (rootA t) = Inr (s', length (sheap s)) \<and> copiedS s s' t None"
proof (induction fuel arbitrary: s t)
  case 0
  then show ?case by simp
next
  case (Suc fuel)
  obtain a ts where t: "t = AT a ts" by (cases t)
  let ?b = "length (sheap s)"
  let ?n0 = "\<lparr>nid = nextId s, children = [], parent = None, depth = 0\<rparr>"
  define s2 where "s2 = s\<lparr>nextId := nextId s + 1, sheap := sheap s @ [?n0]\<rparr>"
  from Suc.prems t have a: "a < ?b" and ch: "children (sheap s ! a) = map rootA ts"
    and sub: "\<And>u. u \<in> set ts \<Longrightarrow> reprT (sheap s) u" by auto
  have hsub: "height u < fuel" if "u \<in> set ts" for u
    using height_sub [OF that, of a] Suc.prems(2) t by simp
  have unfold: "cloneSubtree (Suc fuel) s a =
      (case forEach (map rootA ts) (cloneBody fuel ?b) s2 of Inl e \<Rightarrow> Inl e | Inr s3 \<Rightarrow> Inr (s3, ?b))"
    using a ch by (simp add: newIdS_def s2_def cloneBody_def nth_append Let_def cong del: sum.case_cong_weak)
  have init: "buildingS s s2 [] None"
    by (simp add: buildingS_def buildingH_def s2_def)
  have loop: "\<exists>s4. forEach (map rootA us) (cloneBody fuel ?b) sc = Inr s4 \<and> buildingS s s4 (ts1 @ us) None"
    if "set us \<subseteq> set ts" "buildingS s sc ts1 None" for us ts1 sc
    using that
  proof (induction us arbitrary: ts1 sc)
    case Nil
    then show ?case by simp
  next
    case (Cons u us)
    from Cons.prems have u: "u \<in> set ts" by simp
    from Cons.prems(2) have bh: "buildingH (sheap s) (sheap sc) ts1 None"
      and fl: "hydra sc = hydra s" "moveCount sc = moveCount s" "depthCounters sc = depthCounters s"
        "nextId sc = nextId s + 1 + int (length (concat (map addrs ts1)))"
      by (simp_all add: buildingS_def)
    from bh have tk: "take ?b (sheap sc) = sheap s" by (simp add: buildingH_def)
    have "reprT (sheap sc) u" using sub [OF u] tk by (auto intro: reprT_take)
    from Suc.IH [OF this hsub [OF u]]
    obtain s'' where dc: "cloneSubtree fuel sc (rootA u) = Inr (s'', length (sheap sc))"
      and cp: "copiedS sc s'' u None" by blast
    let ?c = "length (sheap sc)"
    let ?h1 = "(sheap s'')[?c := (sheap s'' ! ?c)\<lparr>parent := Some ?b\<rparr>]"
    let ?sn = "s''\<lparr>sheap := push_child ?h1 ?b ?c\<rparr>"
    from cp have cph: "copiedH (sheap sc) (sheap s'') u None" by (simp add: copiedS_def)
    have "buildingH (sheap s) (push_child ?h1 ?b ?c) (ts1 @ [u]) None"
      by (rule buildingH_step [OF bh copiedH_set_parent [OF cph]])
    then have "buildingS s ?sn (ts1 @ [u]) None"
      using cp fl by (simp add: buildingS_def copiedS_def)
    from Cons.IH [OF _ this] Cons.prems(1)
    obtain s4 where "forEach (map rootA us) (cloneBody fuel ?b) ?sn = Inr s4"
      and "buildingS s s4 ((ts1 @ [u]) @ us) None" by auto
    then show ?case using dc by (simp add: cloneBody_def)
  qed
  from loop [where us = ts and ?ts1.0 = "[]" and sc = s2, OF _ init]
  obtain s4 where fe: "forEach (map rootA ts) (cloneBody fuel ?b) s2 = Inr s4"
    and fin: "buildingS s s4 ts None" by auto
  have "copiedS s s4 t None" using fin by (simp add: buildingS_def buildingH_def copiedS_def copiedH_def t)
  then show ?case using unfold fe t by simp
qed

lemma levels_addrs: "map fst (levels t d) = addrs t"
  by (induction t arbitrary: d) (simp add: map_concat comp_def cong: map_cong)

lemma depthsOk_AT:
  "depthsOk h (AT a ts) d \<longleftrightarrow> depth (h ! a) = d \<and> (\<forall>u \<in> set ts. depthsOk h u (Suc d))"
  by (auto simp: depthsOk_def)

lemma depthsOk_cong:
  assumes "depthsOk h t d" "\<forall>a \<in> set (addrs t). depth (h' ! a) = depth (h ! a)"
  shows "depthsOk h' t d"
  unfolding depthsOk_def
proof (intro ballI, clarify)
  fix a k assume ak: "(a, k) \<in> set (levels t d)"
  then have "a \<in> set (addrs t)" using levels_addrs [of t d] by (metis fst_conv image_eqI set_map)
  then show "depth (h' ! a) = k" using assms ak by (auto simp: depthsOk_def)
qed

lemma assignDepths_ok:
  "reprT h t \<Longrightarrow> height t < fuel \<Longrightarrow>
   \<exists>h'. assignDepths fuel h (rootA t) d = Inr h' \<and> struct h' = struct h
        \<and> (\<forall>x. x \<notin> set (addrs t) \<longrightarrow> h' ! x = h ! x)
        \<and> (distinct (addrs t) \<longrightarrow> depthsOk h' t d)"
proof (induction fuel arbitrary: h t d)
  case 0
  then show ?case by simp
next
  case (Suc fuel)
  obtain a ts where t: "t = AT a ts" by (cases t)
  let ?h1 = "h[a := (h ! a)\<lparr>depth := d\<rparr>]"
  let ?body = "\<lambda>hh c. assignDepths fuel hh c (d + 1)"
  from Suc.prems t have a: "a < length h" and ch: "children (h ! a) = map rootA ts"
    and sub: "\<And>u. u \<in> set ts \<Longrightarrow> reprT h u" by auto
  have hsub: "height u < fuel" if "u \<in> set ts" for u
    using height_sub [OF that, of a] Suc.prems(2) t by simp
  have s1: "struct ?h1 = struct h" by (rule struct_update) simp_all
  have init: "depthInv h t d ?h1 []"
    using s1 a by (simp add: depthInv_def t)
  have loop: "\<exists>h'. forEach (map rootA us) ?body hh = Inr h' \<and> depthInv h t d h' ts"
    if "ts = ts1 @ us" "depthInv h t d hh ts1" for us ts1 hh
    using that
  proof (induction us arbitrary: ts1 hh)
    case Nil
    then show ?case by simp
  next
    case (Cons u us)
    from Cons.prems(1) have u: "u \<in> set ts" by simp
    from Cons.prems(2) have st: "struct hh = struct h"
      and fr: "\<forall>x. x \<notin> set (a # concat (map addrs ts1)) \<longrightarrow> hh ! x = h ! x"
      and dp: "distinct (addrs t) \<longrightarrow> depth (hh ! a) = d \<and> (\<forall>u \<in> set ts1. depthsOk hh u (Suc d))"
      by (simp_all add: depthInv_def t)
    have ru: "reprT hh u" by (rule reprT_struct [OF st [symmetric] sub [OF u]])
    from Suc.IH [OF ru hsub [OF u], of "Suc d"]
    obtain hh' where ad: "assignDepths fuel hh (rootA u) (Suc d) = Inr hh'"
      and st': "struct hh' = struct hh"
      and fr': "\<forall>x. x \<notin> set (addrs u) \<longrightarrow> hh' ! x = hh ! x"
      and dp': "distinct (addrs u) \<longrightarrow> depthsOk hh' u (Suc d)" by blast
    have "depthInv h t d hh' (ts1 @ [u])"
      unfolding depthInv_def
    proof (intro conjI impI allI)
      show "struct hh' = struct h" using st st' by simp
    next
      fix x assume "x \<notin> set (rootA t # concat (map addrs (ts1 @ [u])))"
      then show "hh' ! x = h ! x" using fr fr' t by simp
    next
      assume di: "distinct (addrs t)"
      then have da: "a \<notin> set (addrs u)" and du: "distinct (addrs u)"
        and dj: "\<forall>u1 \<in> set ts1. set (addrs u1) \<inter> set (addrs u) = {}"
        using t Cons.prems(1) by auto
      show "depth (hh' ! rootA t) = d" using dp di da fr' t by simp
      show "\<forall>u1 \<in> set (ts1 @ [u]). depthsOk hh' u1 (Suc d)"
      proof
        fix u1 assume "u1 \<in> set (ts1 @ [u])"
        then consider "u1 = u" | "u1 \<in> set ts1" by auto
        then show "depthsOk hh' u1 (Suc d)"
        proof cases
          case 1
          then show ?thesis using dp' du by simp
        next
          case 2
          then have "depthsOk hh u1 (Suc d)" using dp di by simp
          moreover have "\<forall>x \<in> set (addrs u1). depth (hh' ! x) = depth (hh ! x)"
            using dj 2 fr' by (metis disjoint_iff)
          ultimately show ?thesis by (rule depthsOk_cong)
        qed
      qed
    qed
    from Cons.IH [OF _ this] Cons.prems(1)
    obtain h' where "forEach (map rootA us) ?body hh' = Inr h'" "depthInv h t d h' ts" by auto
    then show ?case using ad by simp
  qed
  from loop [where us = ts and ?ts1.0 = "[]" and hh = ?h1, OF _ init]
  obtain h' where fe: "forEach (map rootA ts) ?body ?h1 = Inr h'" and fin: "depthInv h t d h' ts" by auto
  have "assignDepths (Suc fuel) h a d = Inr h'" using fe a ch by (simp add: Let_def)
  moreover have "struct h' = struct h" using fin by (simp add: depthInv_def)
  moreover have "\<forall>x. x \<notin> set (addrs t) \<longrightarrow> h' ! x = h ! x" using fin by (simp add: depthInv_def t)
  moreover have "distinct (addrs t) \<longrightarrow> depthsOk h' t d" using fin by (simp add: depthInv_def t depthsOk_AT)
  ultimately show ?case using t by simp
qed

lemma depth_exciseH [simp]: "depth (exciseH h P L ! a) = depth (h ! a)"
  by (cases "a = P"; cases "P < length h") (simp_all add: exciseH_def list_update_beyond)

lemma render_ok:
  assumes "wfT (sheap s) r t" "hydra s = Some r" "height t < fuel"
  shows "\<exists>s'. render fuel s = Inr s' \<and> struct (sheap s') = struct (sheap s)
          \<and> depthsOk (sheap s') t 0
          \<and> hydra s' = hydra s \<and> moveCount s' = moveCount s
          \<and> depthCounters s' = depthCounters s \<and> nextId s' = nextId s"
proof -
  from assms(1) have rp: "reprT (sheap s) t" and rt: "rootA t = r" and di: "distinct (addrs t)"
    by (simp_all add: wfT_def)
  from assignDepths_ok [OF rp assms(3), of 0] rt di
  obtain h' where "assignDepths fuel (sheap s) r 0 = Inr h'" "struct h' = struct (sheap s)" "depthsOk h' t 0"
    by auto
  then show ?thesis using assms(2) by (simp add: render_def)
qed

lemma afterMutation_ok:
  assumes "wfT (sheap s) r t" "hydra s = Some r" "height t < fuel"
  shows "\<exists>s'. afterMutation fuel s = Inr s' \<and> struct (sheap s') = struct (sheap s)
          \<and> depthsOk (sheap s') t 0
          \<and> hydra s' = hydra s \<and> moveCount s' = moveCount s
          \<and> depthCounters s' = depthCounters s \<and> nextId s' = nextId s"
proof -
  from assms(1) have rp: "reprT (sheap s) t" and rt: "rootA t = r" and di: "distinct (addrs t)"
    by (simp_all add: wfT_def)
  from assignDepths_ok [OF rp assms(3), of 0] rt
  obtain h1 where 1: "assignDepths fuel (sheap s) r 0 = Inr h1" "struct h1 = struct (sheap s)"
    by auto
  let ?s1 = "s\<lparr>sheap := h1\<rparr>"
  have "wfT (sheap ?s1) r t" using wfT_struct [OF 1(2) [symmetric] assms(1)] by simp
  from render_ok [OF this _ assms(3)] assms(2)
  obtain s' where "render fuel ?s1 = Inr s'" "struct (sheap s') = struct (sheap ?s1)"
    "depthsOk (sheap s') t 0" "hydra s' = hydra ?s1" "moveCount s' = moveCount ?s1"
    "depthCounters s' = depthCounters ?s1" "nextId s' = nextId ?s1" by auto
  then show ?thesis using 1 assms(2) by (simp add: afterMutation_def)
qed

lemma cutLeaf_loop:
  assumes wf: "wfT (sheap s2) r t2" and u: "u \<in> set (subtrees t2)" and G: "G \<in> set (addrs t2)"
    and Gu: "G \<notin> set (addrs u)" and fuel: "height u < fuel"
  shows "\<exists>s3. forEach [0..<N] (cutBody fuel (rootA u) (Some G)) s2 = Inr s3
          \<and> regrown (sheap s2) (sheap s3) r t2 G u N
          \<and> hydra s3 = hydra s2 \<and> moveCount s3 = moveCount s2 \<and> depthCounters s3 = depthCounters s2"
proof (induction N)
  case 0
  then show ?case using regrown_init [OF wf u] by simp
next
  case (Suc N)
  then obtain sN where fe: "forEach [0..<N] (cutBody fuel (rootA u) (Some G)) s2 = Inr sN"
    and inv: "regrown (sheap s2) (sheap sN) r t2 G u N"
    and fl: "hydra sN = hydra s2" "moveCount sN = moveCount s2" "depthCounters sN = depthCounters s2"
    by blast
  from inv have ru: "reprT (sheap sN) u" by (simp add: regrown_def)
  from cloneSubtree_exact [OF ru fuel]
  obtain s'' where dc: "cloneSubtree fuel sN (rootA u) = Inr (s'', length (sheap sN))"
    and cp: "copiedS sN s'' u None" by blast
  from cp have cph: "copiedH (sheap sN) (sheap s'') u None" by (simp add: copiedS_def)
  have old: "\<forall>a \<in> set (addrs t2). a < length (sheap s2)"
    using wf reprT_addrs_lt by (auto simp: wfT_def)
  let ?c = "length (sheap sN)"
  let ?h1 = "(sheap s'')[?c := (sheap s'' ! ?c)\<lparr>parent := Some G\<rparr>]"
  note st = regrown_step [OF inv copiedH_set_parent [OF cph] G Gu old]
  let ?s3 = "s''\<lparr>sheap := push_child ?h1 G ?c\<rparr>"
  have "cutBody fuel (rootA u) (Some G) sN N = Inr ?s3"
    using dc by (simp add: cutBody_def)
  then have "forEach [0..<Suc N] (cutBody fuel (rootA u) (Some G)) s2 = Inr ?s3"
    using fe by (simp add: forEach_append)
  moreover have "hydra ?s3 = hydra s2 \<and> moveCount ?s3 = moveCount s2 \<and> depthCounters ?s3 = depthCounters s2"
    using cp fl by (simp add: copiedS_def)
  ultimately show ?case using st by (intro exI [of _ ?s3]) simp
qed

lemma parent_None_iff_root:
  assumes "wfT h r t" "a \<in> set (addrs t)"
  shows "parent (h ! a) = None \<longleftrightarrow> a = r"
proof
  assume n: "parent (h ! a) = None"
  show "a = r"
  proof (rule ccontr)
    assume "a \<noteq> r"
    from regrow_site [OF assms this] obtain G where "parent (h ! a) = Some G" by blast
    then show False using n by simp
  qed
next
  assume "a = r" then show "parent (h ! a) = None" using assms(1) by (simp add: wfT_def)
qed

lemma cutLeaf_unfold:
  "isLeafS (sheap s) L \<Longrightarrow> parent (sheap s ! L) = Some P \<Longrightarrow>
   cutLeaf fuel s L =
     (if parent (sheap s ! P) = None
      then afterMutation fuel (s\<lparr>sheap := exciseH (sheap s) P L, moveCount := moveCount s + 1\<rparr>)
      else case forEach [0..<(case depthCounters s (depth (sheap s ! P)) of None \<Rightarrow> 0 | Some c \<Rightarrow> c) + 1]
                  (cutBody fuel P (parent (sheap s ! P)))
                  (s\<lparr>sheap := exciseH (sheap s) P L\<rparr>) of
             Inl e \<Rightarrow> Inl e
           | Inr s2 \<Rightarrow> afterMutation fuel
                 (s2\<lparr>depthCounters := (depthCounters s2)
                        (depth (sheap s ! P) \<mapsto> (case depthCounters s (depth (sheap s ! P)) of None \<Rightarrow> 0 | Some c \<Rightarrow> c) + 1),
                     moveCount := moveCount s2 + 1\<rparr>))"
  unfolding cutLeaf_def exciseH_def [symmetric]
  by (simp add: cutBody_def isRootS_def Let_def del: upt_Suc cong del: sum.case_cong_weak)

lemma cutLeaf_at_root:
  assumes wf: "wfT (sheap s) r t" and hy: "hydra s = Some r" and L: "L \<in> set (addrs t)"
    and leaf: "isLeafS (sheap s) L" and P: "parent (sheap s ! L) = Some r" and fuel: "height t < fuel"
  shows "\<exists>s'. cutLeaf fuel s L = Inr s' \<and> cutAtRoot (sheap s) (sheap s') r t L
           \<and> depthsOk (sheap s') (exciseT L t) 0
           \<and> moveCount s' = moveCount s + 1 \<and> depthCounters s' = depthCounters s
           \<and> hydra s' = hydra s \<and> nextId s' = nextId s"
proof -
  from leaf have ch: "children (sheap s ! L) = []" by (simp add: isLeafS_def)
  have pr: "parent (sheap s ! r) = None" using wf by (simp add: wfT_def)
  have Lr: "L \<noteq> r" using P pr by auto
  note pf = leaf_parent_facts [OF wf L Lr P]
  let ?s2 = "s\<lparr>sheap := exciseH (sheap s) r L, moveCount := moveCount s + 1\<rparr>"
  have car: "cutAtRoot (sheap s) (sheap ?s2) r t L"
    using exciseH_cutAtRoot [OF wf Lr ch P pf(4)] by simp
  then have wf2: "wfT (sheap ?s2) r (exciseT L t)" by (simp add: cutAtRoot_def)
  have h2: "height (exciseT L t) < fuel" using height_exciseT [of L t] fuel by simp
  from afterMutation_ok [OF wf2 _ h2] hy
  obtain s' where am: "afterMutation fuel ?s2 = Inr s'" and st: "struct (sheap s') = struct (sheap ?s2)"
    and dp: "depthsOk (sheap s') (exciseT L t) 0"
    and fl: "hydra s' = hydra ?s2" "moveCount s' = moveCount ?s2" "depthCounters s' = depthCounters ?s2"
      "nextId s' = nextId ?s2" by auto
  have "cutLeaf fuel s L = Inr s'" using am pr by (simp add: cutLeaf_unfold [OF leaf P])
  moreover have "cutAtRoot (sheap s) (sheap s') r t L"
    by (rule cutAtRoot_struct [OF car st [symmetric] pf(4)])
  ultimately show ?thesis using fl dp by simp
qed

lemma cutLeaf_regrow:
  assumes wf: "wfT (sheap s) r t" and hy: "hydra s = Some r" and L: "L \<in> set (addrs t)"
    and leaf: "isLeafS (sheap s) L" and P: "parent (sheap s ! L) = Some P" and Pr: "P \<noteq> r"
    and fuel: "height t < fuel"
    and k: "k = (case depthCounters s (depth (sheap s ! P)) of None \<Rightarrow> 0 | Some c \<Rightarrow> c) + 1"
  shows "\<exists>s' G u. cutLeaf fuel s L = Inr s' \<and> parent (sheap s ! P) = Some G
           \<and> u \<in> set (subtrees (exciseT L t)) \<and> rootA u = P
           \<and> G \<in> set (addrs t) \<and> G \<noteq> P \<and> G \<noteq> L \<and> P \<in> set (addrs t)
           \<and> cutRegrown (sheap s) (sheap s') r t L P G u k
           \<and> height (graftCopies G u (length (sheap s)) k (exciseT L t)) \<le> height t
           \<and> depthsOk (sheap s') (graftCopies G u (length (sheap s)) k (exciseT L t)) 0
           \<and> moveCount s' = moveCount s + 1
           \<and> depthCounters s' = (depthCounters s)(depth (sheap s ! P) \<mapsto> k)
           \<and> hydra s' = hydra s"
proof -
  let ?h2 = "exciseH (sheap s) P L" and ?t2 = "exciseT L t"
  let ?d = "depth (sheap s ! P)"
  from leaf have ch: "children (sheap s ! L) = []" by (simp add: isLeafS_def)
  have pr: "parent (sheap s ! r) = None" using wf by (simp add: wfT_def)
  have Lr: "L \<noteq> r" using P pr by auto
  note pf = leaf_parent_facts [OF wf L Lr P]
  note ex = excise_wfT [OF wf Lr ch P pf(4)]
  have Pin2: "P \<in> set (addrs ?t2)" using ex(2) pf(1,2) by simp
  from regrow_site [OF ex(1) Pin2 Pr]
  obtain G u where G: "parent (?h2 ! P) = Some G" and u: "u \<in> set (subtrees ?t2)" and ru: "rootA u = P"
    and Gin: "G \<in> set (addrs ?t2)" and Gu: "G \<notin> set (addrs u)" and tall: "hasTall G (height u) ?t2"
    by blast
  have G': "parent (sheap s ! P) = Some G" using G by simp
  have GP: "G \<noteq> P" using Gu ru rootA_in_addrs [of u] by auto
  have Gt: "G \<in> set (addrs t)" and GL: "G \<noteq> L" using Gin ex(2) by simp_all
  have Gl: "G < length (sheap s)" using wf Gt reprT_addrs_lt by (auto simp: wfT_def)
  have hu: "height u < fuel"
    using height_subtree [OF u] height_exciseT [of L t] fuel by simp
  let ?s2 = "s\<lparr>sheap := ?h2\<rparr>"
  have wf2: "wfT (sheap ?s2) r ?t2" using ex(1) by simp
  from cutLeaf_loop [OF wf2 u Gin Gu hu, of k]
  obtain s3 where fe: "forEach [0..<k] (cutBody fuel P (Some G)) ?s2 = Inr s3"
    and rg: "regrown ?h2 (sheap s3) r ?t2 G u k"
    and fl3: "hydra s3 = hydra s" "moveCount s3 = moveCount s" "depthCounters s3 = depthCounters s"
    using ru by auto
  have cr3: "cutRegrown (sheap s) (sheap s3) r t L P G u k"
    by (rule regrown_cutRegrown [OF rg pf(4) Gl GP])
  let ?T = "graftCopies G u (length (sheap s)) k ?t2"
  have hT: "height ?T \<le> height ?t2"
    using height_graftCopies [OF tall Gu Gl] by blast
  then have hT': "height ?T \<le> height t" using height_exciseT [of L t] by simp
  let ?s4 = "s3\<lparr>depthCounters := (depthCounters s3)(?d \<mapsto> k), moveCount := moveCount s3 + 1\<rparr>"
  from cr3 have wf3: "wfT (sheap ?s4) r ?T" by (simp add: cutRegrown_def)
  have hy4: "hydra ?s4 = Some r" using fl3 hy by simp
  have "height ?T < fuel" using hT' fuel by simp
  from afterMutation_ok [OF wf3 hy4 this]
  obtain s' where am: "afterMutation fuel ?s4 = Inr s'" and st: "struct (sheap s') = struct (sheap ?s4)"
    and dp: "depthsOk (sheap s') ?T 0"
    and fl: "hydra s' = hydra ?s4" "moveCount s' = moveCount ?s4" "depthCounters s' = depthCounters ?s4"
    by auto
  have "cutLeaf fuel s L = Inr s'"
    using am fe G' k by (simp add: cutLeaf_unfold [OF leaf P] del: upt_Suc)
  moreover have "cutRegrown (sheap s) (sheap s') r t L P G u k"
    using cutRegrown_struct [OF cr3 _ pf(4) Gl, of "sheap s'"] st by simp
  ultimately show ?thesis using G' u ru Gt GP GL pf(1) hT' dp fl fl3 by auto
qed

lemma children_distinct:
  assumes "wfT h r t" "a \<in> set (addrs t)"
  shows "distinct (children (h ! a))"
proof -
  from assms(1) have rp: "reprT h t" and di: "distinct (addrs t)" by (simp_all add: wfT_def)
  from assms(2) obtain w where w: "w \<in> set (subtrees t)" "rootA w = a"
    by (auto simp: addrs_subtrees)
  obtain b ts where wb: "w = AT b ts" by (cases w)
  have "reprT h w" by (rule reprT_subtree [OF rp w(1)])
  then have ch: "children (h ! a) = map rootA ts" using w(2) wb by simp
  have "distinct (addrs w)" by (rule distinct_subtree [OF di w(1)])
  then have "distinct (concat (map addrs ts))" using wb by simp
  then have "distinct (map rootA ts)"
  proof (induction ts)
    case Nil
    then show ?case by simp
  next
    case (Cons v vs)
    have "rootA v \<notin> rootA ` set vs"
    proof
      assume "rootA v \<in> rootA ` set vs"
      then obtain v' where "v' \<in> set vs" "rootA v' = rootA v" by auto
      then have "rootA v \<in> set (concat (map addrs vs))" using rootA_in_addrs [of v'] by auto
      moreover have "rootA v \<in> set (addrs v)" by (rule rootA_in_addrs)
      ultimately show False using Cons.prems by auto
    qed
    then show ?case using Cons by simp
  qed
  then show ?thesis using ch by simp
qed

lemma removedOnce_filter:
  assumes "L \<in> set xs" "distinct xs"
  shows "removedOnce xs L (filter (\<lambda>c. c \<noteq> L) xs)"
proof -
  from split_list [OF assms(1)] obtain pre post where xs: "xs = pre @ L # post" by blast
  then have n: "L \<notin> set pre" "L \<notin> set post" using assms(2) by auto
  have "filter (\<lambda>c. c \<noteq> L) pre = pre" "filter (\<lambda>c. c \<noteq> L) post = post"
    using n by (auto simp: filter_id_conv)
  then have "filter (\<lambda>c. c \<noteq> L) xs = pre @ post" using xs by simp
  then show ?thesis using xs n unfolding removedOnce_def by blast
qed

lemma cutAtRoot_rootCutSpec:
  assumes "cutAtRoot h h' r t L" "wfT h r t" "L \<in> set (children (h ! r))"
  shows "rootCutSpec h h' r L"
proof -
  have "r \<in> set (addrs t)" using assms(2) rootA_in_addrs [of t] by (auto simp: wfT_def)
  then have "distinct (children (h ! r))" by (rule children_distinct [OF assms(2)])
  then have "removedOnce (children (h ! r)) L (filter (\<lambda>c. c \<noteq> L) (children (h ! r)))"
    by (rule removedOnce_filter [OF assms(3)])
  then show ?thesis using assms(1) by (simp add: cutAtRoot_def rootCutSpec_def)
qed

lemma cutRegrown_frameSpec:
  assumes cr: "cutRegrown h h' r t L P G u N" and wf: "wfT h r t"
    and L: "L \<in> set (children (h ! P))" and P: "P \<in> set (addrs t)" "P \<noteq> r" "parent (h ! P) = Some G"
  shows "frameSpec h h' L P G N"
proof -
  let ?b = "length h" and ?k = "length (addrs u)"
  let ?new = "map (\<lambda>j. ?b + j * ?k) [0..<N]"
  from cr have len: "length h' = ?b + N * ?k"
    and chP: "children (h' ! P) = filter (\<lambda>c. c \<noteq> L) (children (h ! P))"
    and chG: "children (h' ! G) = children (h ! G) @ ?new"
    and fr: "\<forall>a < ?b. a \<noteq> P \<longrightarrow> a \<noteq> G \<longrightarrow> children (h' ! a) = children (h ! a)"
    and pa: "\<forall>a < ?b. parent (h' ! a) = parent (h ! a)"
    by (simp_all add: cutRegrown_def)
  have 1: "removedOnce (children (h ! P)) L (children (h' ! P))"
    unfolding chP by (rule removedOnce_filter [OF L children_distinct [OF wf P(1)]])
  have kpos: "0 < ?k" by (rule length_addrs_pos)
  have 2: "\<forall>c \<in> set ?new. ?b \<le> c \<and> c < length h'"
  proof
    fix c assume "c \<in> set ?new"
    then obtain j where j: "j < N" "c = ?b + j * ?k" by auto
    have "j * ?k < N * ?k" using j(1) kpos by simp
    then show "?b \<le> c \<and> c < length h'" using j(2) len by simp
  qed
  have 3: "P \<in> set (children (h ! G))" by (rule leaf_parent_facts(3) [OF wf P])
  have "\<exists>new. children (h' ! G) = children (h ! G) @ new \<and> length new = N
               \<and> (\<forall>c \<in> set new. ?b \<le> c \<and> c < length h')"
    using chG 2 by (intro exI [of _ ?new]) simp
  then show ?thesis using len 1 3 fr pa unfolding frameSpec_def by simp
qed

lemma cutRegrown_regrowthSpec:
  assumes cr: "cutRegrown h h' r t L P G u N" and wf: "wfT h r t"
    and Lt: "L \<in> set (addrs t)" "L \<noteq> r" "children (h ! L) = []" "parent (h ! L) = Some P"
    and P: "P \<noteq> r" "parent (h ! P) = Some G"
    and u: "u \<in> set (subtrees (exciseT L t))" "rootA u = P"
  shows "regrowthSpec h h' L P G u N"
proof -
  let ?b = "length h" and ?k = "length (addrs u)"
  let ?new = "map (\<lambda>j. ?b + j * ?k) [0..<N]"
  from cr have chP: "children (h' ! P) = filter (\<lambda>c. c \<noteq> L) (children (h ! P))"
    and chG: "children (h' ! G) = children (h ! G) @ ?new"
    and ru: "reprT h' u"
    and pa: "\<forall>a < ?b. parent (h' ! a) = parent (h ! a)"
    and cps: "\<forall>j < N. reprT h' (relabel (?b + j * ?k) u) \<and> parentsOk h' (relabel (?b + j * ?k) u)
               \<and> parent (h' ! (?b + j * ?k)) = Some G"
    by (simp_all add: cutRegrown_def)
  note pf = leaf_parent_facts [OF wf Lt(1,2,4)]
  note ex = excise_wfT [OF wf Lt(2,3,4) pf(4)]
  have sub: "set (addrs u) \<subseteq> set (addrs (exciseT L t))" by (rule addrs_subtree_subset [OF u(1)])
  have 1: "L \<notin> set (addrs u)" using sub ex(2) by auto
  have rp: "reprT h t" using wf by (simp add: wfT_def)
  have 2: "\<forall>a \<in> set (addrs u). a < ?b" using sub ex(2) reprT_addrs_lt [OF rp] by auto
  have 3: "P \<in> set (children (h ! G))" by (rule leaf_parent_facts(3) [OF wf pf(1) P])
  have 4: "parent (h' ! P) = Some G" using pa pf(4) P(2) by simp
  have 5: "L \<notin> set (children (h' ! P))" using chP by simp
  show ?thesis
    unfolding regrowthSpec_def
    using chP chG ru cps u(2) 1 2 3 4 5 by (simp add: shape_relabel addrs_relabel add.commute add.left_commute)
qed

lemma forEach_pres:
  assumes "forEach xs body s = Inr s'" "I s" "\<And>x a b. I a \<Longrightarrow> body a x = Inr b \<Longrightarrow> I b"
  shows "I s'"
  using assms
proof (induction xs arbitrary: s)
  case Nil
  then show ?case by simp
next
  case (Cons x xs)
  from Cons.prems(1) obtain s1 where b: "body s x = Inr s1" and r: "forEach xs body s1 = Inr s'"
    by (auto split: sum.splits)
  have "I s1" using Cons.prems(2,3) b by blast
  from Cons.IH [OF r this] Cons.prems(3) show ?case by blast
qed

lemma deepCopy_fields:
  "deepCopy fuel s n p = Inr (s', a) \<Longrightarrow>
   step s' = step s \<and> reducedGrowth s' = reducedGrowth s \<and> root s' = root s"
proof (induction fuel arbitrary: s n p s' a)
  case 0
  then show ?case by simp
next
  case (Suc fuel)
  let ?I = "\<lambda>x. step x = step s \<and> reducedGrowth x = reducedGrowth s \<and> root x = root s"
  define s3 where "s3 = s\<lparr>idCounter := idCounter s + 1, heap := heap s @
      [\<lparr>nid = idCounter s, children = [], parent = p, xpos = 0, ypos = 0, width = 0\<rparr>]\<rparr>"
  from Suc.prems have fe: "forEach (children (heap s3 ! n)) (copyBody fuel (length (heap s))) s3 = Inr s'"
    by (simp add: newId_def new_Node_def s3_def copyBody_def split: sum.splits cong del: sum.case_cong_weak)
  have "?I s'"
  proof (rule forEach_pres [OF fe, where I = ?I])
    show "?I s3" by (simp add: s3_def)
  next
    fix x a b assume "?I a" and b: "copyBody fuel (length (heap s)) a x = Inr b"
    from b obtain s'' c where "deepCopy fuel a x (Some (length (heap s))) = Inr (s'', c)"
      and "b = s''\<lparr>heap := push_child (heap s'') (length (heap s)) c\<rparr>"
      by (auto simp: copyBody_def split: sum.splits)
    then show "?I b" using Suc.IH \<open>?I a\<close> by fastforce
  qed
  then show ?case .
qed

lemma redraw_fields:
  "redraw fuel s = Inr s' \<Longrightarrow>
   step s' = step s \<and> reducedGrowth s' = reducedGrowth s \<and> root s' = root s"
  by (auto simp: redraw_def relabelTree_def split: sum.splits prod.splits)

lemma chop_step:
  assumes "chop fuel s L = Inr s'"
  shows "step s' = step s + 1 \<and> reducedGrowth s' = reducedGrowth s"
proof -
  from assms obtain P where P: "parent (heap s ! L) = Some P"
    by (cases "parent (heap s ! L)") (simp_all add: chop_def)
  let ?s2 = "s\<lparr>step := step s + 1, heap := exciseH (heap s) P L\<rparr>"
  let ?I = "\<lambda>x. step x = step s + 1 \<and> reducedGrowth x = reducedGrowth s"
  from assms obtain s3 where mid: "(if P \<noteq> root s
            then forEach [0..<(if reducedGrowth s then 1 else step s + 1)]
                   (chopBody fuel P (parent (exciseH (heap s) P L ! P))) ?s2
            else Inr ?s2) = Inr s3" and rd: "redraw fuel s3 = Inr s'"
    unfolding chop_unfold [OF P] by (auto split: sum.splits)
  have "?I s3"
  proof (cases "P \<noteq> root s")
    case True
    with mid have fe: "forEach [0..<(if reducedGrowth s then 1 else step s + 1)]
                   (chopBody fuel P (parent (exciseH (heap s) P L ! P))) ?s2 = Inr s3" by simp
    show ?thesis
    proof (rule forEach_pres [OF fe, where I = ?I])
      show "?I ?s2" by simp
    next
      fix x a b assume a: "?I a" and b: "chopBody fuel P (parent (exciseH (heap s) P L ! P)) a x = Inr b"
      from b obtain s'' c g where "deepCopy fuel a P (parent (exciseH (heap s) P L ! P)) = Inr (s'', c)"
        and "b = s''\<lparr>heap := push_child (heap s'') g c\<rparr>"
        by (auto simp: chopBody_def split: sum.splits option.splits)
      then show "?I b" using deepCopy_fields a by fastforce
    qed
  next
    case False
    with mid show ?thesis by auto
  qed
  then show ?thesis using redraw_fields [OF rd] by simp
qed

lemma initHydra_step: "initHydra fuel s len = Inr s' \<Longrightarrow> step s' = 0"
  by (auto simp: initHydra_def Let_def split: prod.splits dest!: redraw_fields)

lemma setHydra_counters: "setHydra fuel z r = Inr z' \<Longrightarrow> depthCounters z' = Map.empty \<and> moveCount z' = 0"
  by (auto simp: setHydra_def render_def split: sum.splits option.splits)

lemma levels_ge: "(a, k) \<in> set (levels t d) \<Longrightarrow> d \<le> k"
proof (induction t arbitrary: d)
  case (AT b ts)
  then show ?case by (fastforce dest: Suc_leD)
qed

lemma levels_nonroot: "(a, k) \<in> set (levels t 0) \<Longrightarrow> a \<noteq> rootA t \<Longrightarrow> 1 \<le> k"
  by (cases t) (auto dest: levels_ge)

lemma chain3_hyps:
  "wfT (heap chain3) (root chain3) chain3_tree \<and> 1 \<in> set (addrs chain3_tree) \<and> isLeaf chain3 1
      \<and> parent (heap chain3 ! 1) = Some 2 \<and> 2 \<noteq> root chain3 \<and> height chain3_tree < 5"
  by (simp add: wfT_def chain3_def chain3_tree_def isLeaf_def)

lemma balanced32_hyps:
  "wfT (sheap balanced32) 14 balanced32_tree \<and> hydra balanced32 = Some 14
      \<and> 0 \<in> set (addrs balanced32_tree) \<and> isLeafS (sheap balanced32) 0
      \<and> parent (sheap balanced32 ! 0) = Some 2 \<and> 2 \<noteq> (14::nat) \<and> height balanced32_tree < 5"
  by (simp add: wfT_def balanced32_def balanced32_tree_def isLeafS_def)

lemma balanced32_depths:
  "depthsOk (sheap balanced32) balanced32_tree 0 \<and> (2, 2) \<in> set (levels balanced32_tree 0)"
  by (simp add: depthsOk_def balanced32_def balanced32_tree_def)

lemma chain1_hyps:
  "wfT (heap chain1) (root chain1) (AT 0 [AT 1 []]) \<and> 1 \<in> set (addrs (AT 0 [AT 1 []]))
      \<and> isLeaf chain1 1 \<and> parent (heap chain1 ! 1) = Some (root chain1)
      \<and> height (AT 0 [AT 1 []]) < 5"
  by (simp add: wfT_def chain1_def isLeaf_def)

lemma chain3_eval:
  "initHydra 5 initial 3 = Inr chain3" "chop 5 chain3 1 = Inr chain3_cut"
  "getAllNodes 5 chain3_cut = Inr [0, 3, 2, 4]"
  by code_simp+

lemma balanced32_setHydra: "setHydra 5 balanced32 14 = Inr balanced32"
  by (simp add: setHydra_def render_def balanced32_def eval_nat_numeral)

lemma guard_eval:
  "getAllNodes 5 chain3 = Inr [0, 3, 2, 1]" "handleClick 5 chain3 0 0 = Inr chain3"
  "handleClick 5 chain3 0 (- 240) = chop 5 chain3 1" "isLeaf chain3 1"
  by code_simp+

lemma balanced32_root: "\<not> isLeafS (sheap balanced32) 14 \<and> isRootS (sheap balanced32) 14"
  by (simp add: isLeafS_def isRootS_def balanced32_def)

lemma forEach_mono:
  assumes "forEach xs body s = Inr s'"
    and "\<And>a x b. body a x = Inr b \<Longrightarrow> body' a x = Inr b"
  shows "forEach xs body' s = Inr s'"
  using assms(1)
proof (induction xs arbitrary: s)
  case Nil
  then show ?case by simp
next
  case (Cons x xs)
  from Cons.prems obtain s1 where b: "body s x = Inr s1" and r: "forEach xs body s1 = Inr s'"
    by (auto split: sum.splits)
  show ?case using assms(2) [OF b] Cons.IH [OF r] by simp
qed

lemma deepCopy_Suc:
  "deepCopy (Suc fuel) s n p =
     (case forEach (children ((heap s @ [\<lparr>nid = idCounter s, children = [], parent = p,
                                          xpos = 0, ypos = 0, width = 0\<rparr>]) ! n))
             (copyBody fuel (length (heap s)))
             (s\<lparr>idCounter := idCounter s + 1, heap := heap s @
                [\<lparr>nid = idCounter s, children = [], parent = p, xpos = 0, ypos = 0, width = 0\<rparr>]\<rparr>) of
        Inl e \<Rightarrow> Inl e
      | Inr s4 \<Rightarrow> Inr (s4, length (heap s)))"
  by (simp add: newId_def new_Node_def copyBody_def cong del: sum.case_cong_weak)

lemma deepCopy_mono:
  "deepCopy fuel s n p = Inr r \<Longrightarrow> deepCopy (fuel + k) s n p = Inr r"
proof (induction fuel arbitrary: s n p r)
  case 0
  then show ?case by simp
next
  case (Suc fuel)
  have body: "copyBody (fuel + k) c a x = Inr b" if "copyBody fuel c a x = Inr b" for c a x b
    using that Suc.IH by (auto simp: copyBody_def split: sum.splits)
  let ?n0 = "\<lparr>nid = idCounter s, children = [], parent = p, xpos = 0, ypos = 0, width = 0\<rparr>"
  let ?s3 = "s\<lparr>idCounter := idCounter s + 1, heap := heap s @ [?n0]\<rparr>"
  let ?cs = "children ((heap s @ [?n0]) ! n)"
  from Suc.prems obtain s4 where fe: "forEach ?cs (copyBody fuel (length (heap s))) ?s3 = Inr s4"
    and r: "r = (s4, length (heap s))"
    unfolding deepCopy_Suc by (auto split: sum.splits)
  have "forEach ?cs (copyBody (fuel + k) (length (heap s))) ?s3 = Inr s4"
    by (rule forEach_mono [OF fe body])
  then show ?case unfolding add_Suc deepCopy_Suc using r by simp
qed

lemma traverseRelabel_mono:
  "traverseRelabel fuel hn n = Inr r \<Longrightarrow> traverseRelabel (fuel + k) hn n = Inr r"
proof (induction fuel arbitrary: hn n r)
  case 0
  then show ?case by simp
next
  case (Suc fuel)
  from Suc.prems show ?case
    unfolding add_Suc traverseRelabel.simps Let_def
    by (rule forEach_mono) (rule Suc.IH)
qed

lemma traverseCollect_mono:
  "traverseCollect fuel h acc n = Inr r \<Longrightarrow> traverseCollect (fuel + k) h acc n = Inr r"
proof (induction fuel arbitrary: acc n r)
  case 0
  then show ?case by simp
next
  case (Suc fuel)
  from Suc.prems show ?case
    unfolding add_Suc traverseCollect.simps
    by (rule forEach_mono) (rule Suc.IH)
qed

lemma computeWidths_mono:
  "computeWidths fuel h n = Inr r \<Longrightarrow> computeWidths (fuel + k) h n = Inr r"
proof (induction fuel arbitrary: h n r)
  case 0
  then show ?case by simp
next
  case (Suc fuel)
  let ?body = "\<lambda>f acc child. case computeWidths f (fst acc) child of
                   Inl e \<Rightarrow> Inl e
                 | Inr h' \<Rightarrow> Inr (h', snd acc + width (h' ! child))"
  have body: "?body (fuel + k) a x = Inr b" if "?body fuel a x = Inr b" for a x b
    using that Suc.IH by (auto split: sum.splits)
  from Suc.prems obtain acc where fe: "forEach (children (h ! n)) (?body fuel) (h, 0) = Inr acc"
    by (auto split: sum.splits)
  have "forEach (children (h ! n)) (?body (fuel + k)) (h, 0) = Inr acc"
    by (rule forEach_mono [OF fe body])
  then show ?case using Suc.prems fe by (simp add: )
qed

lemma placeNodes_mono:
  "placeNodes fuel h n x0 y0 = Inr r \<Longrightarrow> placeNodes (fuel + k) h n x0 y0 = Inr r"
proof (induction fuel arbitrary: h n x0 y0 r)
  case 0
  then show ?case by simp
next
  case (Suc fuel)
  let ?body = "\<lambda>f acc child. case placeNodes f (fst acc) child
                           (snd acc + width (fst acc ! child) / 2) (y0 - vSpacing) of
                      Inl e \<Rightarrow> Inl e
                    | Inr h' \<Rightarrow> Inr (h', snd acc + width (h' ! child))"
  let ?h1 = "h[n := (h ! n)\<lparr>xpos := x0, ypos := y0\<rparr>]"
  let ?c0 = "x0 - fold (\<lambda>child acc. acc + width (?h1 ! child)) (children (?h1 ! n)) 0 / 2"
  have body: "?body (fuel + k) a x = Inr b" if "?body fuel a x = Inr b" for a x b
    using that Suc.IH by (auto split: sum.splits)
  from Suc.prems obtain acc where fe: "forEach (children (?h1 ! n)) (?body fuel) (?h1, ?c0) = Inr acc"
    by (auto simp: Let_def split: sum.splits)
  have "forEach (children (?h1 ! n)) (?body (fuel + k)) (?h1, ?c0) = Inr acc"
    by (rule forEach_mono [OF fe body])
  then show ?case using Suc.prems fe by (simp add: Let_def)
qed

lemma redraw_mono: "redraw fuel s = Inr r \<Longrightarrow> redraw (fuel + k) s = Inr r"
proof -
  assume rd: "redraw fuel s = Inr r"
  then obtain h1 n1 where 1: "traverseRelabel fuel (heap s, 0) (root s) = Inr (h1, n1)"
    by (auto simp: redraw_def relabelTree_def split: sum.splits prod.splits)
  from rd 1 obtain h2 where 2: "computeWidths fuel h1 (root s) = Inr h2"
    by (auto simp: redraw_def relabelTree_def split: sum.splits)
  from rd 1 2 obtain h3 where 3: "placeNodes fuel h2 (root s) 0 0 = Inr h3"
    by (auto simp: redraw_def relabelTree_def split: sum.splits)
  from rd 1 2 3 have r: "r = s\<lparr>heap := h3, idCounter := n1\<rparr>"
    by (auto simp: redraw_def relabelTree_def)
  show ?thesis
    using traverseRelabel_mono [OF 1, of k] computeWidths_mono [OF 2, of k] placeNodes_mono [OF 3, of k] r
    by (simp add: redraw_def relabelTree_def)
qed

lemma chopBody_mono:
  "chopBody fuel P G a x = Inr b \<Longrightarrow> chopBody (fuel + k) P G a x = Inr b"
proof -
  assume b: "chopBody fuel P G a x = Inr b"
  then obtain s'' c where d: "deepCopy fuel a P G = Inr (s'', c)"
    by (auto simp: chopBody_def split: sum.splits)
  show ?thesis using b d deepCopy_mono [OF d, of k] by (simp add: chopBody_def)
qed

lemma chop_mono: "chop fuel s L = Inr r \<Longrightarrow> chop (fuel + k) s L = Inr r"
proof -
  assume c: "chop fuel s L = Inr r"
  then obtain P where P: "parent (heap s ! L) = Some P"
    by (cases "parent (heap s ! L)") (simp_all add: chop_def)
  let ?s2 = "s\<lparr>step := step s + 1, heap := exciseH (heap s) P L\<rparr>"
  let ?N = "if reducedGrowth s then 1 else step s + 1"
  let ?G = "parent (exciseH (heap s) P L ! P)"
  from c obtain s3 where mid: "(if P \<noteq> root s then forEach [0..<?N] (chopBody fuel P ?G) ?s2 else Inr ?s2) = Inr s3"
    and rd: "redraw fuel s3 = Inr r"
    unfolding chop_unfold [OF P] by (auto split: sum.splits)
  have "(if P \<noteq> root s then forEach [0..<?N] (chopBody (fuel + k) P ?G) ?s2 else Inr ?s2) = Inr s3"
  proof (cases "P \<noteq> root s")
    case True
    with mid have "forEach [0..<?N] (chopBody fuel P ?G) ?s2 = Inr s3" by simp
    then have "forEach [0..<?N] (chopBody (fuel + k) P ?G) ?s2 = Inr s3"
      by (rule forEach_mono) (rule chopBody_mono)
    then show ?thesis using True by simp
  next
    case False
    then show ?thesis using mid by simp
  qed
  then show ?thesis using redraw_mono [OF rd, of k] by (simp add: chop_unfold [OF P])
qed

lemma getAllNodes_mono: "getAllNodes fuel s = Inr r \<Longrightarrow> getAllNodes (fuel + k) s = Inr r"
  by (simp add: getAllNodes_def traverseCollect_mono)

lemma traverseCollect_ok:
  "reprT h t \<Longrightarrow> height t < fuel \<Longrightarrow> traverseCollect fuel h acc (rootA t) = Inr (acc @ addrs t)"
proof (induction fuel arbitrary: t acc)
  case 0
  then show ?case by simp
next
  case (Suc fuel)
  obtain a ts where t: "t = AT a ts" by (cases t)
  from Suc.prems t have ch: "children (h ! a) = map rootA ts"
    and sub: "\<And>u. u \<in> set ts \<Longrightarrow> reprT h u" by auto
  have hsub: "height u < fuel" if "u \<in> set ts" for u
    using height_sub [OF that, of a] Suc.prems(2) t by simp
  have "forEach (map rootA us) (\<lambda>acc c. traverseCollect fuel h acc c) acc' = Inr (acc' @ concat (map addrs us))"
    if "set us \<subseteq> set ts" for us acc'
    using that
  proof (induction us arbitrary: acc')
    case Nil
    then show ?case by simp
  next
    case (Cons u us)
    then have u: "u \<in> set ts" by simp
    show ?case using Suc.IH [OF sub [OF u] hsub [OF u]] Cons by simp
  qed
  from this [of ts "acc @ [a]"] show ?case using t ch by simp
qed

lemma getAllNodes_tree:
  assumes "wfT (heap s) (root s) t" "getAllNodes fuel s = Inr nodes"
  shows "nodes = addrs t"
proof -
  from assms(1) have rp: "reprT (heap s) t" and rt: "rootA t = root s" by (simp_all add: wfT_def)
  have "getAllNodes (fuel + Suc (height t)) s = Inr nodes" by (rule getAllNodes_mono [OF assms(2)])
  moreover have "getAllNodes (fuel + Suc (height t)) s = Inr (addrs t)"
    using traverseCollect_ok [OF rp, of "fuel + Suc (height t)" "[]"] rt by (simp add: getAllNodes_def)
  ultimately show ?thesis by simp
qed

lemma wf_hlt: "wf (hlt n)"
  by (induction n) (simp_all add: wf_mult)

lemma hlt_Suc_mono: "hlt n \<subseteq> hlt (Suc n)"
proof (induction n)
  case 0
  then show ?case by simp
next
  case (Suc n)
  have "mult (hlt n) \<subseteq> mult (hlt (Suc n))" by (rule mono_mult [OF Suc])
  then show ?case by (auto simp: inv_image_def)
qed

lemma hlt_mono: "m \<le> n \<Longrightarrow> hlt m \<subseteq> hlt n"
proof (induction n)
  case 0
  then show ?case by simp
next
  case (Suc n)
  then show ?case using hlt_Suc_mono [of n] by (cases "m = Suc n") auto
qed

lemma hlt_SucI:
  "(mset (kidsT a), mset (kidsT b)) \<in> mult (hlt n) \<Longrightarrow> (a, b) \<in> hlt (Suc n)"
  by simp

lemma wf_hless: "wf hless"
proof (rule wfI_min)
  fix x :: tree and Q assume xQ: "x \<in> Q"
  let ?H = "theight x"
  let ?Q' = "{y \<in> Q. theight y \<le> ?H}"
  have "x \<in> ?Q'" using xQ by simp
  with wf_hlt [of "Suc ?H"] obtain z where z: "z \<in> ?Q'" and min: "\<And>y. (y, z) \<in> hlt (Suc ?H) \<Longrightarrow> y \<notin> ?Q'"
    by (rule wfE_min) blast
  show "\<exists>z \<in> Q. \<forall>y. (y, z) \<in> hless \<longrightarrow> y \<notin> Q"
  proof (intro bexI allI impI)
    show "z \<in> Q" using z by simp
  next
    fix y assume "(y, z) \<in> hless"
    then have h: "theight y \<le> theight z" and l: "(y, z) \<in> hlt (Suc (theight z))" by (simp_all add: hless_def)
    have "theight z \<le> ?H" using z by simp
    then have "hlt (Suc (theight z)) \<subseteq> hlt (Suc ?H)" by (intro hlt_mono) simp
    then have "(y, z) \<in> hlt (Suc ?H)" using l by blast
    then have "y \<notin> ?Q'" by (rule min)
    then show "y \<notin> Q" using h \<open>theight z \<le> ?H\<close> by simp
  qed
qed

lemma theight_shape: "theight (shape t) = height t"
proof (induction t)
  case (AT a ts)
  have "foldr (\<lambda>t m. max (Suc (theight t)) m) (map shape us) 0 = foldr (\<lambda>t m. max (Suc (height t)) m) us 0"
    if "set us \<subseteq> set ts" for us
    using that by (induction us) (simp_all add: AT.IH)
  from this [of ts] show ?case by simp
qed

lemma hlt_remove_child:
  "(T (xs @ ys), T (xs @ c # ys)) \<in> hlt (Suc n)"
proof (rule hlt_SucI)
  have "(mset (xs @ ys), mset (xs @ c # ys)) \<in> mult (hlt n)"
    by (rule subset_implies_mult) simp
  then show "(mset (kidsT (T (xs @ ys))), mset (kidsT (T (xs @ c # ys)))) \<in> mult (hlt n)"
    by simp
qed

lemma hlt_replace_child:
  assumes "\<forall>k \<in> set ks. (k, c) \<in> hlt n"
  shows "(T (xs @ ks @ ys), T (xs @ c # ys)) \<in> hlt (Suc n)"
proof (rule hlt_SucI)
  have "(mset (xs @ ys) + mset ks, mset (xs @ ys) + {#c#}) \<in> mult (hlt n)"
    by (rule one_step_implies_mult) (use assms in auto)
  then show "(mset (kidsT (T (xs @ ks @ ys))), mset (kidsT (T (xs @ c # ys)))) \<in> mult (hlt n)"
    by (simp add: ac_simps)
qed

lemma hlt_replace_mset:
  assumes "mset as = I + K" "mset bs = add_mset c I" "\<forall>k \<in># K. (k, c) \<in> hlt n"
  shows "(T as, T bs) \<in> hlt (Suc n)"
proof (rule hlt_SucI)
  have "(I + K, I + {#c#}) \<in> mult (hlt n)"
    by (rule one_step_implies_mult) (use assms(3) in auto)
  then show "(mset (kidsT (T as)), mset (kidsT (T bs))) \<in> mult (hlt n)"
    using assms(1,2) by simp
qed

lemma exciseT_id: "L \<notin> set (addrs w) \<Longrightarrow> exciseT L w = w"
proof (induction w)
  case (AT a ts)
  have 1: "rootA c \<noteq> L" if "c \<in> set ts" for c
    using AT.prems that rootA_in_addrs [of c] by auto
  have 2: "exciseT L c = c" if "c \<in> set ts" for c
    using AT.IH [OF that] AT.prems that by auto
  have "filter (\<lambda>t. rootA t \<noteq> L) ts = ts" using 1 by (simp add: filter_id_conv)
  moreover have "map (exciseT L) ts = ts" using 2 by (simp add: map_idI)
  ultimately show ?case by simp
qed

lemma addrs_exciseT_subset: "set (addrs (exciseT L w)) \<subseteq> set (addrs w)"
  by (induction w) auto

lemma graft1_id: "G \<notin> set (addrs w) \<Longrightarrow> graft1 G c w = w"
proof (induction w)
  case (AT a ts)
  have "graft1 G c x = x" if "x \<in> set ts" for x
    using AT.IH [OF that] AT.prems that by auto
  then have "map (graft1 G c) ts = ts" by (simp add: map_idI)
  then show ?case using AT.prems by simp
qed

lemma graftCopies_AT:
  assumes "G < b"
  shows "graftCopies G u b N (AT a ts) =
     AT a (map (graftCopies G u b N) ts
           @ (if a = G then map (\<lambda>j. relabel (b + j * length (addrs u)) u) [0..<N] else []))"
proof (induction N)
  case 0
  then show ?case by simp
next
  case (Suc N)
  have "graft1 G c (relabel (b + j * length (addrs u)) u) = relabel (b + j * length (addrs u)) u" for c j
    by (rule graft1_id) (use assms in \<open>simp add: addrs_relabel\<close>)
  then show ?case using Suc by simp
qed

lemma graftCopies_id: "G \<notin> set (addrs w) \<Longrightarrow> graftCopies G u b N w = w"
  by (induction N) (simp_all add: graft1_id)

lemma excise_decreases:
  "distinct (addrs w) \<Longrightarrow> L \<in> set (addrs w) \<Longrightarrow> L \<noteq> rootA w \<Longrightarrow>
   (shape (exciseT L w), shape w) \<in> hlt (Suc (height w))"
proof (induction w)
  case (AT a ts)
  from AT.prems obtain c where c: "c \<in> set ts" "L \<in> set (addrs c)" by auto
  from split_list [OF c(1)] obtain xs ys where ts: "ts = xs @ c # ys" by blast
  from AT.prems(1) ts have dc: "distinct (addrs c)"
    and Lxs: "L \<notin> set (concat (map addrs xs))" and Lys: "L \<notin> set (concat (map addrs ys))"
    using c(2) by auto
  have idx: "exciseT L x = x \<and> rootA x \<noteq> L" if "x \<in> set xs \<union> set ys" for x
  proof -
    have "L \<notin> set (addrs x)" using that Lxs Lys by auto
    then show ?thesis using exciseT_id rootA_in_addrs [of x] by auto
  qed
  then have fx: "filter (\<lambda>t. rootA t \<noteq> L) xs = xs" "filter (\<lambda>t. rootA t \<noteq> L) ys = ys"
    and mx: "map (exciseT L) xs = xs" "map (exciseT L) ys = ys"
    by (simp_all add: filter_id_conv map_idI)
  show ?case
  proof (cases "rootA c = L")
    case True
    then have "exciseT L (AT a ts) = AT a (xs @ ys)" using ts fx mx by simp
    then have "shape (exciseT L (AT a ts)) = T (map shape xs @ map shape ys)" by simp
    moreover have "shape (AT a ts) = T (map shape xs @ shape c # map shape ys)" using ts by simp
    ultimately show ?thesis using hlt_remove_child [of "map shape xs" "map shape ys" "shape c"] by simp
  next
    case False
    then have e: "exciseT L (AT a ts) = AT a (xs @ exciseT L c # ys)" using ts fx mx by simp
    have "(shape (exciseT L c), shape c) \<in> hlt (Suc (height c))"
      by (rule AT.IH [OF c(1) dc c(2)]) (use False in simp)
    moreover have "hlt (Suc (height c)) \<subseteq> hlt (height (AT a ts))"
      using height_sub [OF c(1), of a] by (intro hlt_mono) simp
    ultimately have k: "(shape (exciseT L c), shape c) \<in> hlt (height (AT a ts))" by blast
    have "(T (map shape (xs @ exciseT L c # ys)), T (map shape ts)) \<in> hlt (Suc (height (AT a ts)))"
      by (rule hlt_replace_mset [where I = "mset (map shape (xs @ ys))" and K = "{#shape (exciseT L c)#}"
            and c = "shape c"]) (use k ts in simp_all)
    then show ?thesis using e by simp
  qed
qed

lemma proper_subtree_addrs:
  "w0 \<in> set (subtrees c) \<Longrightarrow> p \<in> set (subs w0) \<Longrightarrow>
   set (addrs p) \<subseteq> set (concat (map addrs (subs c)))"
proof (cases c)
  case (AT a ts)
  assume w0: "w0 \<in> set (subtrees c)" and p: "p \<in> set (subs w0)"
  show ?thesis
  proof (cases "w0 = c")
    case True
    then show ?thesis using p AT by auto
  next
    case False
    then obtain v where v: "v \<in> set ts" "w0 \<in> set (subtrees v)" using w0 AT by auto
    have "p \<in> set (subtrees v)" by (rule sub_subtree [OF v(2) p])
    then have "set (addrs p) \<subseteq> set (addrs v)" by (rule addrs_subtree_subset)
    then show ?thesis using v(1) AT by auto
  qed
qed

lemma regrow_decreases:
  "G < b \<Longrightarrow> distinct (addrs w) \<Longrightarrow> w0 \<in> set (subtrees w) \<Longrightarrow> rootA w0 = G \<Longrightarrow> p \<in> set (subs w0) \<Longrightarrow>
   L \<in> set (addrs p) \<Longrightarrow> L \<noteq> rootA p \<Longrightarrow>
   (shape (graftCopies G (exciseT L p) b N (exciseT L w)), shape w) \<in> hlt (Suc (height w))"
proof (induction w)
  case (AT a ts)
  let ?u = "exciseT L p"
  let ?gc = "graftCopies G ?u b N"
  let ?copies = "map (\<lambda>j. relabel (b + j * length (addrs ?u)) ?u) [0..<N]"
  note Gb = AT.prems(1) and di = AT.prems(2)
  show ?case
  proof (cases "w0 = AT a ts")
    case True
    then have aG: "a = G" and pts: "p \<in> set ts" using AT.prems(4,5) by auto
    from split_list [OF pts] obtain xs ys where ts: "ts = xs @ p # ys" by blast
    from di ts AT.prems(6) have dp: "distinct (addrs p)"
      and Lo: "L \<notin> set (concat (map addrs xs))" "L \<notin> set (concat (map addrs ys))"
      and Go: "G \<notin> set (concat (map addrs ts))"
      using aG by auto
    have idx: "exciseT L x = x \<and> rootA x \<noteq> L \<and> ?gc x = x" if "x \<in> set xs \<union> set ys" for x
    proof -
      have "L \<notin> set (addrs x)" using that Lo by auto
      moreover have "G \<notin> set (addrs x)" using that Go ts by auto
      ultimately show ?thesis using exciseT_id graftCopies_id rootA_in_addrs [of x] by auto
    qed
    then have fx: "filter (\<lambda>t. rootA t \<noteq> L) xs = xs" "filter (\<lambda>t. rootA t \<noteq> L) ys = ys"
      and mx: "map (exciseT L) xs = xs" "map (exciseT L) ys = ys"
      and gx: "map ?gc xs = xs" "map ?gc ys = ys"
      by (simp_all add: filter_id_conv map_idI)
    have "G \<notin> set (addrs p)" using Go pts by auto
    then have "G \<notin> set (addrs ?u)" using addrs_exciseT_subset [of L p] by auto
    then have gu: "?gc ?u = ?u" by (rule graftCopies_id)
    have e: "exciseT L (AT a ts) = AT a (xs @ ?u # ys)" using ts fx mx AT.prems(7) by simp
    have g: "?gc (exciseT L (AT a ts)) = AT a (xs @ ?u # ys @ ?copies)"
      unfolding e graftCopies_AT [OF Gb] using gx gu aG by simp
    have "(shape ?u, shape p) \<in> hlt (Suc (height p))"
      by (rule excise_decreases [OF dp AT.prems(6,7)])
    moreover have "hlt (Suc (height p)) \<subseteq> hlt (height (AT a ts))"
      using height_sub [OF pts, of a] by (intro hlt_mono) simp
    ultimately have k: "(shape ?u, shape p) \<in> hlt (height (AT a ts))" by blast
    have "(T (map shape (xs @ ?u # ys @ ?copies)), T (map shape ts)) \<in> hlt (Suc (height (AT a ts)))"
    proof (rule hlt_replace_mset [where I = "mset (map shape (xs @ ys))"
          and K = "add_mset (shape ?u) (mset (map shape ?copies))" and c = "shape p"])
      show "mset (map shape (xs @ ?u # ys @ ?copies))
            = mset (map shape (xs @ ys)) + add_mset (shape ?u) (mset (map shape ?copies))" by simp
      show "mset (map shape ts) = add_mset (shape p) (mset (map shape (xs @ ys)))" using ts by simp
      show "\<forall>k \<in># add_mset (shape ?u) (mset (map shape ?copies)). (k, shape p) \<in> hlt (height (AT a ts))"
        using k by (auto simp: shape_relabel)
    qed
    then show ?thesis using g by simp
  next
    case False
    then obtain c where c: "c \<in> set ts" "w0 \<in> set (subtrees c)" using AT.prems(3) by auto
    from split_list [OF c(1)] obtain xs ys where ts: "ts = xs @ c # ys" by blast
    have Gc: "G \<in> set (addrs c)"
      using addrs_subtree_subset [OF c(2)] AT.prems(4) rootA_in_addrs [of w0] by auto
    have pc: "set (addrs p) \<subseteq> set (concat (map addrs (subs c)))"
      by (rule proper_subtree_addrs [OF c(2) AT.prems(5)])
    have Lc: "L \<in> set (addrs c)" using pc AT.prems(6) by (cases c) auto
    from di ts have dc: "distinct (addrs c)"
      and Lo: "L \<notin> set (concat (map addrs xs))" "L \<notin> set (concat (map addrs ys))"
      and Go: "G \<notin> set (concat (map addrs xs))" "G \<notin> set (concat (map addrs ys))"
      and aG: "a \<noteq> G"
      using Lc Gc by auto
    have rc: "rootA c \<noteq> L" using dc pc AT.prems(6) by (cases c) auto
    have idx: "exciseT L x = x \<and> rootA x \<noteq> L \<and> ?gc x = x" if "x \<in> set xs \<union> set ys" for x
    proof -
      have "L \<notin> set (addrs x)" using that Lo by auto
      moreover have "G \<notin> set (addrs x)" using that Go by auto
      ultimately show ?thesis using exciseT_id graftCopies_id rootA_in_addrs [of x] by auto
    qed
    then have fx: "filter (\<lambda>t. rootA t \<noteq> L) xs = xs" "filter (\<lambda>t. rootA t \<noteq> L) ys = ys"
      and mx: "map (exciseT L) xs = xs" "map (exciseT L) ys = ys"
      and gx: "map ?gc xs = xs" "map ?gc ys = ys"
      by (simp_all add: filter_id_conv map_idI)
    have e: "exciseT L (AT a ts) = AT a (xs @ exciseT L c # ys)" using ts fx mx rc by simp
    have g: "?gc (exciseT L (AT a ts)) = AT a (xs @ ?gc (exciseT L c) # ys)"
      unfolding e graftCopies_AT [OF Gb] using gx aG by simp
    have "(shape (?gc (exciseT L c)), shape c) \<in> hlt (Suc (height c))"
      by (rule AT.IH [OF c(1) Gb dc c(2) AT.prems(4,5,6,7)])
    moreover have "hlt (Suc (height c)) \<subseteq> hlt (height (AT a ts))"
      using height_sub [OF c(1), of a] by (intro hlt_mono) simp
    ultimately have k: "(shape (?gc (exciseT L c)), shape c) \<in> hlt (height (AT a ts))" by blast
    have "(T (map shape (xs @ ?gc (exciseT L c) # ys)), T (map shape ts)) \<in> hlt (Suc (height (AT a ts)))"
      by (rule hlt_replace_mset [where I = "mset (map shape (xs @ ys))"
            and K = "{#shape (?gc (exciseT L c))#}" and c = "shape c"]) (use k ts in simp_all)
    then show ?thesis using g by simp
  qed
qed

lemma subtrees_exciseT:
  "u \<in> set (subtrees (exciseT L t)) \<Longrightarrow> \<exists>p \<in> set (subtrees t). u = exciseT L p"
proof (induction t)
  case (AT a ts)
  show ?case
  proof (cases "u = exciseT L (AT a ts)")
    case True
    then show ?thesis using self_subtree [of "AT a ts"] by blast
  next
    case False
    then obtain c where c: "c \<in> set ts" "u \<in> set (subtrees (exciseT L c))" using AT.prems by auto
    from AT.IH [OF this] obtain p where "p \<in> set (subtrees c)" "u = exciseT L p" by blast
    then show ?thesis using c(1) by auto
  qed
qed

lemma chop_decreases:
  assumes wf: "wfT (heap s) (root s) t" and L: "L \<in> set (addrs t)" and leaf: "isLeaf s L"
    and fuel: "height t < fuel"
  shows "\<exists>s' t'. chop fuel s L = Inr s' \<and> wfT (heap s') (root s') t'
           \<and> (shape t', shape t) \<in> hless"
proof -
  from wf have rt: "rootA t = root s" and rp: "reprT (heap s) t" and po: "parentsOk (heap s) t"
    and di: "distinct (addrs t)" by (simp_all add: wfT_def)
  from leaf have Lr: "L \<noteq> root s" by (simp add: isLeaf_def)
  from nonroot_has_parent [of L t] L Lr rt
  obtain wl vl where wl: "wl \<in> set (subtrees t)" and vl: "vl \<in> set (subs wl)" and rvl: "rootA vl = L"
    by auto
  define P where "P = rootA wl"
  have PL: "parent (heap s ! L) = Some P" using parent_of_child [OF po wl vl] rvl P_def by simp
  note pf = leaf_parent_facts [OF wf L Lr PL]
  show ?thesis
  proof (cases "P = root s")
    case True
    from chop_at_root [OF wf L leaf PL [unfolded True] fuel]
    obtain s' where ch: "chop fuel s L = Inr s'" and car: "cutAtRoot (heap s) (heap s') (root s) t L"
      and r': "root s' = root s" by blast
    have wf': "wfT (heap s') (root s') (exciseT L t)" using car r' by (simp add: cutAtRoot_def)
    have "(shape (exciseT L t), shape t) \<in> hlt (Suc (height t))"
      by (rule excise_decreases [OF di L]) (use Lr rt in simp)
    then have "(shape (exciseT L t), shape t) \<in> hless"
      using height_exciseT [of L t] by (simp add: hless_def theight_shape del: hlt.simps)
    then show ?thesis using ch wf' by blast
  next
    case False
    let ?N = "if reducedGrowth s then 1 else step s + 1"
    from chop_regrow [OF wf L leaf PL False fuel]
    obtain s' G u where ch: "chop fuel s L = Inr s'" and PG: "parent (heap s ! P) = Some G"
      and u: "u \<in> set (subtrees (exciseT L t))" and ru: "rootA u = P"
      and Gt: "G \<in> set (addrs t)"
      and cr: "cutRegrown (heap s) (heap s') (root s) t L P G u ?N"
      and hT: "height (graftCopies G u (length (heap s)) ?N (exciseT L t)) \<le> height t"
      and r': "root s' = root s" by blast
    let ?t' = "graftCopies G u (length (heap s)) ?N (exciseT L t)"
    have wf': "wfT (heap s') (root s') ?t'" using cr r' by (simp add: cutRegrown_def)
    from subtrees_exciseT [OF u] obtain p where p: "p \<in> set (subtrees t)" and up: "u = exciseT L p"
      by blast
    have rpP: "rootA p = P" using ru up by simp
    from nonroot_has_parent [of P t] pf(1) False rt
    obtain w0 p' where w0: "w0 \<in> set (subtrees t)" and p': "p' \<in> set (subs w0)" and rp': "rootA p' = P"
      by auto
    have "p' \<in> set (subtrees t)" by (rule sub_subtree [OF w0 p'])
    then have pp: "p' = p" using subtree_unique [OF di _ p] rp' rpP by simp
    have "parent (heap s ! P) = Some (rootA w0)" using parent_of_child [OF po w0 p'] rp' by simp
    then have rw0: "rootA w0 = G" using PG by simp
    have "reprT (heap s) p" by (rule reprT_subtree [OF rp p])
    then have "children (heap s ! P) = map rootA (subs p)" using rpP by (cases p) auto
    then obtain l where l: "l \<in> set (subs p)" "rootA l = L" using pf(3) by auto
    have Lp: "L \<in> set (addrs p)" using l rootA_in_addrs [of l] by (cases p) auto
    have LP: "L \<noteq> rootA p" using pf(2) rpP by simp
    have Gl: "G < length (heap s)" by (rule reprT_addrs_lt [OF rp Gt])
    have "(shape (graftCopies G (exciseT L p) (length (heap s)) ?N (exciseT L t)), shape t)
            \<in> hlt (Suc (height t))"
      by (rule regrow_decreases [OF Gl di w0 rw0 p' [unfolded pp] Lp LP])
    then have "(shape ?t', shape t) \<in> hless"
      using hT up by (simp add: hless_def theight_shape del: hlt.simps)
    then show ?thesis using ch wf' by blast
  qed
qed

lemma cutMove_decreases:
  assumes wf: "wfT (heap s) (root s) t" and mv: "cutMove s s'"
  shows "\<exists>t'. wfT (heap s') (root s') t' \<and> (shape t', shape t) \<in> hless"
proof -
  from mv obtain fuel nodes L where g: "getAllNodes fuel s = Inr nodes" and L: "L \<in> set nodes"
    and leaf: "isLeaf s L" and ch: "chop fuel s L = Inr s'" by (auto simp: cutMove_def)
  have "nodes = addrs t" by (rule getAllNodes_tree [OF wf g])
  then have Lt: "L \<in> set (addrs t)" using L by simp
  have "height t < fuel + Suc (height t)" by simp
  from chop_decreases [OF wf Lt leaf this]
  obtain s'' t' where "chop (fuel + Suc (height t)) s L = Inr s''"
    and r: "wfT (heap s'') (root s'') t'" "(shape t', shape t) \<in> hless" by blast
  moreover have "chop (fuel + Suc (height t)) s L = Inr s'" by (rule chop_mono [OF ch])
  ultimately have "s'' = s'" by simp
  then show ?thesis using r by blast
qed

lemma childless_subtree: "\<exists>l \<in> set (subtrees c). subs l = []"
proof (induction c)
  case (AT a ts)
  show ?case
  proof (cases ts)
    case Nil
    then show ?thesis by simp
  next
    case (Cons x xs)
    then have "x \<in> set ts" by simp
    from AT.IH [OF this] obtain l where "l \<in> set (subtrees x)" "subs l = []" by blast
    then show ?thesis using \<open>x \<in> set ts\<close> by auto
  qed
qed

lemma cut_possible:
  assumes wf: "wfT (heap s) (root s) t" and ns: "\<not> slain s"
  shows "\<exists>s'. cutMove s s'"
proof -
  from wf have rt: "rootA t = root s" and rp: "reprT (heap s) t"
    and di: "distinct (addrs t)" by (simp_all add: wfT_def)
  obtain a ts where t: "t = AT a ts" by (cases t)
  have "children (heap s ! root s) = map rootA ts" using rp rt t by simp
  then have "ts \<noteq> []" using ns by (auto simp: slain_def)
  then obtain c where c: "c \<in> set ts" by (cases ts) auto
  from childless_subtree [of c] obtain l where l: "l \<in> set (subtrees c)" "subs l = []" by blast
  let ?L = "rootA l"
  have lt: "l \<in> set (subtrees t)" using l(1) c t by auto
  have Lc: "?L \<in> set (addrs c)" using addrs_subtree_subset [OF l(1)] rootA_in_addrs [of l] by auto
  then have Lt: "?L \<in> set (addrs t)" using c t by auto
  have Lr: "?L \<noteq> root s" using di Lc c t rt by auto
  have "reprT (heap s) l" by (rule reprT_subtree [OF rp lt])
  then have "children (heap s ! ?L) = []" using l(2) by (cases l) auto
  then have leaf: "isLeaf s ?L" using Lr by (simp add: isLeaf_def)
  have g: "getAllNodes (Suc (height t)) s = Inr (addrs t)"
    using traverseCollect_ok [OF rp, of "Suc (height t)" "[]"] rt by (simp add: getAllNodes_def)
  from chop_decreases [OF wf Lt leaf, of "Suc (height t)"]
  obtain s' where "chop (Suc (height t)) s ?L = Inr s'" by auto
  then have "cutMove s s'" unfolding cutMove_def using g Lt leaf by blast
  then show ?thesis ..
qed

lemma plays_end:
  assumes wf: "wfT (heap (play 0)) (root (play 0)) t0"
    and mv: "\<forall>n. \<not> slain (play n) \<longrightarrow> cutMove (play n) (play (Suc n))"
  shows "\<exists>n. slain (play n)"
proof (rule ccontr)
  assume "\<not> (\<exists>n. slain (play n))"
  then have step: "cutMove (play n) (play (Suc n))" for n using mv by blast
  have a: "\<exists>x. wfT (heap (play 0)) (root (play 0)) x" using wf ..
  have b: "\<exists>y. wfT (heap (play (Suc n))) (root (play (Suc n))) y \<and> (shape y, shape x) \<in> hless"
    if "wfT (heap (play n)) (root (play n)) x" for x n
    by (rule cutMove_decreases [OF that step])
  have "\<exists>f. (\<forall>n. wfT (heap (play n)) (root (play n)) (f n))
            \<and> (\<forall>n. (shape (f (Suc n)), shape (f n)) \<in> hless)"
    using dependent_nat_choice [where P = "\<lambda>n x. wfT (heap (play n)) (root (play n)) x"
          and Q = "\<lambda>n x y. (shape y, shape x) \<in> hless", OF a b] by blast
  then obtain f where d: "\<And>n. (shape (f (Suc n)), shape (f n)) \<in> hless" by blast
  from d have "\<exists>g. \<forall>i. (g (Suc i), g i) \<in> hless"
    by (intro exI [of _ "\<lambda>n. shape (f n)"]) simp
  then show False using wf_hless by (simp add: wf_iff_no_infinite_down_chain)
qed

lemma chain2_eval:
  "initHydra 5 initial 2 = Inr chain2"
  "getAllNodes 5 chain2 = Inr [0, 2, 1]" "isLeaf chain2 1" "chop 5 chain2 1 = Inr chain2_cut1"
  "getAllNodes 5 chain2_cut1 = Inr [0, 2, 3]" "isLeaf chain2_cut1 2" "chop 5 chain2_cut1 2 = Inr chain2_cut2"
  "getAllNodes 5 chain2_cut2 = Inr [0, 3]" "isLeaf chain2_cut2 3" "chop 5 chain2_cut2 3 = Inr chain2_cut3"
  "slain chain2_cut3"
  by code_simp+

lemma chain2_moves:
  "cutMove chain2 chain2_cut1" "cutMove chain2_cut1 chain2_cut2" "cutMove chain2_cut2 chain2_cut3"
proof -
  have "getAllNodes 5 chain2 = Inr [0, 2, 1] \<and> 1 \<in> set [0, 2, 1::nat] \<and> isLeaf chain2 1
        \<and> chop 5 chain2 1 = Inr chain2_cut1" using chain2_eval by simp
  then show "cutMove chain2 chain2_cut1" unfolding cutMove_def by blast
  have "getAllNodes 5 chain2_cut1 = Inr [0, 2, 3] \<and> 2 \<in> set [0, 2, 3::nat] \<and> isLeaf chain2_cut1 2
        \<and> chop 5 chain2_cut1 2 = Inr chain2_cut2" using chain2_eval by simp
  then show "cutMove chain2_cut1 chain2_cut2" unfolding cutMove_def by blast
  have "getAllNodes 5 chain2_cut2 = Inr [0, 3] \<and> 3 \<in> set [0, 3::nat] \<and> isLeaf chain2_cut2 3
        \<and> chop 5 chain2_cut2 3 = Inr chain2_cut3" using chain2_eval by simp
  then show "cutMove chain2_cut2 chain2_cut3" unfolding cutMove_def by blast
qed

lemma chain2_wfT: "wfT (heap chain2) (root chain2) chain2_tree"
  by (simp add: wfT_def chain2_def chain2_tree_def)

lemma chain2_play_moves:
  "\<forall>n. \<not> slain (chain2_play n) \<longrightarrow> cutMove (chain2_play n) (chain2_play (Suc n))"
proof (intro allI impI)
  fix n assume ns: "\<not> slain (chain2_play n)"
  consider "n = 0" | "n = 1" | "n = 2" | "3 \<le> n" by linarith
  then show "cutMove (chain2_play n) (chain2_play (Suc n))"
  proof cases
    case 1 then show ?thesis using chain2_moves(1) by (simp add: chain2_play_def)
  next
    case 2 then show ?thesis using chain2_moves(2) by (simp add: chain2_play_def)
  next
    case 3 then show ?thesis using chain2_moves(3) by (simp add: chain2_play_def)
  next
    case 4 then show ?thesis using ns chain2_eval(11) by (simp add: chain2_play_def)
  qed
qed

section \<open>Leaf and root tests\<close>

text \<open>
  C8 (as the code has it).  In index.js \<open>isLeaf\<close> holds exactly for a childless node
  other than the root, so it never holds for the root.  In script.js \<open>isLeaf\<close> holds
  exactly for a childless node, root or not, and \<open>isRoot\<close> holds exactly for a node
  without parent.
\<close>

theorem isLeaf_isRoot_char:
  "(isLeaf s n \<longleftrightarrow> children (heap s ! n) = [] \<and> n \<noteq> root s)
   \<and> \<not> isLeaf s (root s)
   \<and> (isLeafS h n \<longleftrightarrow> children (h ! n) = [])
   \<and> (isRootS h n \<longleftrightarrow> parent (h ! n) = None)"
  by (simp add: isLeaf_def isLeafS_def isRootS_def)

text \<open>
  C8 fails as stated for script.js: a hydra that is only a root without children (what
  is left when the hydra is slain) is a leaf for \<open>isLeaf\<close> and a root for \<open>isRoot\<close>.
\<close>

theorem isLeafS_root_counterexample:
  "isLeafS [\<lparr>nid = 1, children = [], parent = None, depth = 0\<rparr>] 0
   \<and> isRootS [\<lparr>nid = 1, children = [], parent = None, depth = 0\<rparr>] 0"
  by (simp add: isLeafS_def isRootS_def)

section \<open>The cut\<close>

text \<open>
  C6.  A leaf whose parent is the root is cut without regrowth, in both programs: the
  cut returns, the store has as many nodes as before, the root's children are the old
  ones with the single occurrence of the leaf taken out, every other children sequence
  and every parent pointer is as before, the move counter (\<open>step\<close> in index.js,
  \<open>moveCount\<close> in script.js) has grown by one, and the policy state of script.js (the
  depth counters) and the growth mode of index.js are untouched.
\<close>

theorem cut_under_root:
  "(wfT (heap s) (root s) t \<and> L \<in> set (addrs t) \<and> isLeaf s L
      \<and> parent (heap s ! L) = Some (root s) \<and> height t < fuel
     \<longrightarrow> (\<exists>s'. chop fuel s L = Inr s' \<and> rootCutSpec (heap s) (heap s') (root s) L
              \<and> step s' = step s + 1 \<and> reducedGrowth s' = reducedGrowth s \<and> root s' = root s))
   \<and> (wfT (sheap z) r t' \<and> hydra z = Some r \<and> L' \<in> set (addrs t') \<and> isLeafS (sheap z) L'
      \<and> parent (sheap z ! L') = Some r \<and> height t' < fuel'
     \<longrightarrow> (\<exists>z'. cutLeaf fuel' z L' = Inr z' \<and> rootCutSpec (sheap z) (sheap z') r L'
              \<and> moveCount z' = moveCount z + 1 \<and> depthCounters z' = depthCounters z
              \<and> hydra z' = hydra z \<and> nextId z' = nextId z))"
proof (intro conjI impI)
  assume a: "wfT (heap s) (root s) t \<and> L \<in> set (addrs t) \<and> isLeaf s L
      \<and> parent (heap s ! L) = Some (root s) \<and> height t < fuel"
  then have wf: "wfT (heap s) (root s) t" and L: "L \<in> set (addrs t)" and lf: "isLeaf s L"
    and P: "parent (heap s ! L) = Some (root s)" and fu: "height t < fuel" by simp_all
  from chop_at_root [OF wf L lf P fu]
  obtain s' where c: "chop fuel s L = Inr s'" and car: "cutAtRoot (heap s) (heap s') (root s) t L"
    and fl: "step s' = step s + 1" "root s' = root s" "reducedGrowth s' = reducedGrowth s" by blast
  have "L \<noteq> root s" using lf by (simp add: isLeaf_def)
  note pf = leaf_parent_facts [OF wf L this P]
  have "rootCutSpec (heap s) (heap s') (root s) L" by (rule cutAtRoot_rootCutSpec [OF car wf pf(3)])
  then show "\<exists>s'. chop fuel s L = Inr s' \<and> rootCutSpec (heap s) (heap s') (root s) L
              \<and> step s' = step s + 1 \<and> reducedGrowth s' = reducedGrowth s \<and> root s' = root s"
    using c fl by blast
next
  assume a: "wfT (sheap z) r t' \<and> hydra z = Some r \<and> L' \<in> set (addrs t') \<and> isLeafS (sheap z) L'
      \<and> parent (sheap z ! L') = Some r \<and> height t' < fuel'"
  then have wf: "wfT (sheap z) r t'" and hy: "hydra z = Some r" and L: "L' \<in> set (addrs t')"
    and lf: "isLeafS (sheap z) L'" and P: "parent (sheap z ! L') = Some r" and fu: "height t' < fuel'"
    by simp_all
  from cutLeaf_at_root [OF wf hy L lf P fu]
  obtain z' where c: "cutLeaf fuel' z L' = Inr z'" and car: "cutAtRoot (sheap z) (sheap z') r t' L'"
    and fl: "moveCount z' = moveCount z + 1" "depthCounters z' = depthCounters z"
      "hydra z' = hydra z" "nextId z' = nextId z" by blast
  have "parent (sheap z ! r) = None" using wf by (simp add: wfT_def)
  then have "L' \<noteq> r" using P by auto
  note pf = leaf_parent_facts [OF wf L this P]
  have "rootCutSpec (sheap z) (sheap z') r L'" by (rule cutAtRoot_rootCutSpec [OF car wf pf(3)])
  then show "\<exists>z'. cutLeaf fuel' z L' = Inr z' \<and> rootCutSpec (sheap z) (sheap z') r L'
              \<and> moveCount z' = moveCount z + 1 \<and> depthCounters z' = depthCounters z
              \<and> hydra z' = hydra z \<and> nextId z' = nextId z"
    using c fl by blast
qed

theorem cut_under_root_witness:
  "(wfT (heap chain1) (root chain1) (AT 0 [AT 1 []]) \<and> 1 \<in> set (addrs (AT 0 [AT 1 []]))
      \<and> isLeaf chain1 1 \<and> parent (heap chain1 ! 1) = Some (root chain1)
      \<and> height (AT 0 [AT 1 []]) < 5)
   \<and> (\<exists>s'. chop 5 chain1 1 = Inr s' \<and> rootCutSpec (heap chain1) (heap s') (root chain1) 1
          \<and> step s' = step chain1 + 1 \<and> reducedGrowth s' = reducedGrowth chain1 \<and> root s' = root chain1)
   \<and> (wfT (sheap line1) 0 (AT 0 [AT 1 []]) \<and> hydra line1 = Some 0 \<and> 1 \<in> set (addrs (AT 0 [AT 1 []]))
      \<and> isLeafS (sheap line1) 1 \<and> parent (sheap line1 ! 1) = Some 0 \<and> height (AT 0 [AT 1 []]) < 5)
   \<and> (\<exists>z'. cutLeaf 5 line1 1 = Inr z' \<and> rootCutSpec (sheap line1) (sheap z') 0 1
          \<and> moveCount z' = moveCount line1 + 1 \<and> depthCounters z' = depthCounters line1
          \<and> hydra z' = hydra line1 \<and> nextId z' = nextId line1)"
proof -
  have h1: "wfT (heap chain1) (root chain1) (AT 0 [AT 1 []]) \<and> 1 \<in> set (addrs (AT 0 [AT 1 []]))
      \<and> isLeaf chain1 1 \<and> parent (heap chain1 ! 1) = Some (root chain1)
      \<and> height (AT 0 [AT 1 []]) < 5"
    by (simp add: wfT_def chain1_def isLeaf_def)
  have h2: "wfT (sheap line1) 0 (AT 0 [AT 1 []]) \<and> hydra line1 = Some 0 \<and> 1 \<in> set (addrs (AT 0 [AT 1 []]))
      \<and> isLeafS (sheap line1) 1 \<and> parent (sheap line1 ! 1) = Some 0 \<and> height (AT 0 [AT 1 []]) < 5"
    by (simp add: wfT_def line1_def isLeafS_def)
  from cut_under_root [of chain1 "AT 0 [AT 1 []]" 1 5 line1 0 "AT 0 [AT 1 []]" 1 5] h1 h2
  show ?thesis by blast
qed

text \<open>
  C10.  The frame of a cut with regrowth, in both programs.  For a leaf \<open>L\<close> of a tree
  whose parent \<open>P\<close> is not the root the cut returns with the grandparent \<open>G\<close> found in
  \<open>P.parent\<close>, and among the nodes that existed before: \<open>P\<close>'s children are the old
  ones with the single occurrence of \<open>L\<close> taken out; \<open>G\<close>'s children are the old ones,
  \<open>P\<close> among them, followed by \<open>N\<close> new addresses; every other node has the children it
  had; and every node, \<open>P\<close> and \<open>G\<close> included, has the parent it had.
\<close>

theorem cut_frame:
  "(wfT (heap s) (root s) t \<and> L \<in> set (addrs t) \<and> isLeaf s L
      \<and> parent (heap s ! L) = Some P \<and> P \<noteq> root s \<and> height t < fuel
     \<longrightarrow> (\<exists>s' G. chop fuel s L = Inr s' \<and> parent (heap s ! P) = Some G \<and> G \<noteq> P
              \<and> frameSpec (heap s) (heap s') L P G (if reducedGrowth s then 1 else step s + 1)))
   \<and> (wfT (sheap z) r t' \<and> hydra z = Some r \<and> L' \<in> set (addrs t') \<and> isLeafS (sheap z) L'
      \<and> parent (sheap z ! L') = Some P' \<and> P' \<noteq> r \<and> height t' < fuel'
     \<longrightarrow> (\<exists>z' G. cutLeaf fuel' z L' = Inr z' \<and> parent (sheap z ! P') = Some G \<and> G \<noteq> P'
              \<and> frameSpec (sheap z) (sheap z') L' P' G (stored z (depth (sheap z ! P')) + 1)))"
proof (intro conjI impI)
  assume a: "wfT (heap s) (root s) t \<and> L \<in> set (addrs t) \<and> isLeaf s L
      \<and> parent (heap s ! L) = Some P \<and> P \<noteq> root s \<and> height t < fuel"
  then have wf: "wfT (heap s) (root s) t" and L: "L \<in> set (addrs t)" and lf: "isLeaf s L"
    and P: "parent (heap s ! L) = Some P" and Pr: "P \<noteq> root s" and fu: "height t < fuel" by simp_all
  let ?N = "if reducedGrowth s then 1 else step s + 1"
  from chop_regrow [OF wf L lf P Pr fu]
  obtain s' G u where c: "chop fuel s L = Inr s'" and G: "parent (heap s ! P) = Some G"
    and GP: "G \<noteq> P" and Pin: "P \<in> set (addrs t)"
    and cr: "cutRegrown (heap s) (heap s') (root s) t L P G u ?N" by blast
  have "L \<noteq> root s" using lf by (simp add: isLeaf_def)
  note pf = leaf_parent_facts [OF wf L this P]
  have "frameSpec (heap s) (heap s') L P G ?N"
    by (rule cutRegrown_frameSpec [OF cr wf pf(3) Pin Pr G])
  then show "\<exists>s' G. chop fuel s L = Inr s' \<and> parent (heap s ! P) = Some G \<and> G \<noteq> P
              \<and> frameSpec (heap s) (heap s') L P G ?N"
    using c G GP by blast
next
  assume a: "wfT (sheap z) r t' \<and> hydra z = Some r \<and> L' \<in> set (addrs t') \<and> isLeafS (sheap z) L'
      \<and> parent (sheap z ! L') = Some P' \<and> P' \<noteq> r \<and> height t' < fuel'"
  then have wf: "wfT (sheap z) r t'" and hy: "hydra z = Some r" and L: "L' \<in> set (addrs t')"
    and lf: "isLeafS (sheap z) L'" and P: "parent (sheap z ! L') = Some P'" and Pr: "P' \<noteq> r"
    and fu: "height t' < fuel'" by simp_all
  let ?N = "stored z (depth (sheap z ! P')) + 1"
  from cutLeaf_regrow [OF wf hy L lf P Pr fu, of ?N]
  obtain z' G u where c: "cutLeaf fuel' z L' = Inr z'" and G: "parent (sheap z ! P') = Some G"
    and GP: "G \<noteq> P'" and Pin: "P' \<in> set (addrs t')"
    and cr: "cutRegrown (sheap z) (sheap z') r t' L' P' G u ?N" by (auto simp: stored_def)
  have "parent (sheap z ! r) = None" using wf by (simp add: wfT_def)
  then have "L' \<noteq> r" using P by auto
  note pf = leaf_parent_facts [OF wf L this P]
  have "frameSpec (sheap z) (sheap z') L' P' G ?N"
    by (rule cutRegrown_frameSpec [OF cr wf pf(3) Pin Pr G])
  then show "\<exists>z' G. cutLeaf fuel' z L' = Inr z' \<and> parent (sheap z ! P') = Some G \<and> G \<noteq> P'
              \<and> frameSpec (sheap z) (sheap z') L' P' G ?N"
    using c G GP by blast
qed

text \<open>
  C1.  The regrowth of a cut, in both programs.  For a leaf \<open>L\<close> of a tree whose parent
  \<open>P\<close> is not the root the cut returns; \<open>L\<close> is gone from \<open>P\<close>'s children; the store
  holds a tree \<open>u\<close> rooted at \<open>P\<close>, made of old nodes and without \<open>L\<close>; \<open>P\<close> is still a
  child of \<open>G\<close> and points to it; and \<open>G\<close>'s children are the old ones followed by the
  roots of \<open>N\<close> copies of \<open>u\<close>.  Copy \<open>j\<close> is a tree in the store with the shape of \<open>u\<close>,
  it occupies exactly the \<open>k\<close> addresses that were allocated for it (\<open>k\<close> the number of
  nodes of \<open>u\<close>; the blocks of different copies are disjoint and start past the old
  store), every child in it points to its parent in the copy, and its root points to
  \<open>G\<close>.
\<close>

theorem cut_regrows_copies:
  "(wfT (heap s) (root s) t \<and> L \<in> set (addrs t) \<and> isLeaf s L
      \<and> parent (heap s ! L) = Some P \<and> P \<noteq> root s \<and> height t < fuel
     \<longrightarrow> (\<exists>s' G u. chop fuel s L = Inr s' \<and> parent (heap s ! P) = Some G
              \<and> regrowthSpec (heap s) (heap s') L P G u (if reducedGrowth s then 1 else step s + 1)))
   \<and> (wfT (sheap z) r t' \<and> hydra z = Some r \<and> L' \<in> set (addrs t') \<and> isLeafS (sheap z) L'
      \<and> parent (sheap z ! L') = Some P' \<and> P' \<noteq> r \<and> height t' < fuel'
     \<longrightarrow> (\<exists>z' G u. cutLeaf fuel' z L' = Inr z' \<and> parent (sheap z ! P') = Some G
              \<and> regrowthSpec (sheap z) (sheap z') L' P' G u (stored z (depth (sheap z ! P')) + 1)))"
proof (intro conjI impI)
  assume a: "wfT (heap s) (root s) t \<and> L \<in> set (addrs t) \<and> isLeaf s L
      \<and> parent (heap s ! L) = Some P \<and> P \<noteq> root s \<and> height t < fuel"
  then have wf: "wfT (heap s) (root s) t" and L: "L \<in> set (addrs t)" and lf: "isLeaf s L"
    and P: "parent (heap s ! L) = Some P" and Pr: "P \<noteq> root s" and fu: "height t < fuel" by simp_all
  let ?N = "if reducedGrowth s then 1 else step s + 1"
  from chop_regrow [OF wf L lf P Pr fu]
  obtain s' G u where c: "chop fuel s L = Inr s'" and G: "parent (heap s ! P) = Some G"
    and u: "u \<in> set (subtrees (exciseT L t))" "rootA u = P"
    and cr: "cutRegrown (heap s) (heap s') (root s) t L P G u ?N" by blast
  from lf have Lr: "L \<noteq> root s" and ch: "children (heap s ! L) = []" by (simp_all add: isLeaf_def)
  have "regrowthSpec (heap s) (heap s') L P G u ?N"
    by (rule cutRegrown_regrowthSpec [OF cr wf L Lr ch P Pr G u])
  then show "\<exists>s' G u. chop fuel s L = Inr s' \<and> parent (heap s ! P) = Some G
              \<and> regrowthSpec (heap s) (heap s') L P G u ?N"
    using c G by blast
next
  assume a: "wfT (sheap z) r t' \<and> hydra z = Some r \<and> L' \<in> set (addrs t') \<and> isLeafS (sheap z) L'
      \<and> parent (sheap z ! L') = Some P' \<and> P' \<noteq> r \<and> height t' < fuel'"
  then have wf: "wfT (sheap z) r t'" and hy: "hydra z = Some r" and L: "L' \<in> set (addrs t')"
    and lf: "isLeafS (sheap z) L'" and P: "parent (sheap z ! L') = Some P'" and Pr: "P' \<noteq> r"
    and fu: "height t' < fuel'" by simp_all
  let ?N = "stored z (depth (sheap z ! P')) + 1"
  from cutLeaf_regrow [OF wf hy L lf P Pr fu, of ?N]
  obtain z' G u where c: "cutLeaf fuel' z L' = Inr z'" and G: "parent (sheap z ! P') = Some G"
    and u: "u \<in> set (subtrees (exciseT L' t'))" "rootA u = P'"
    and cr: "cutRegrown (sheap z) (sheap z') r t' L' P' G u ?N" by (auto simp: stored_def)
  have "parent (sheap z ! r) = None" using wf by (simp add: wfT_def)
  then have Lr: "L' \<noteq> r" using P by auto
  from lf have ch: "children (sheap z ! L') = []" by (simp add: isLeafS_def)
  have "regrowthSpec (sheap z) (sheap z') L' P' G u ?N"
    by (rule cutRegrown_regrowthSpec [OF cr wf L Lr ch P Pr G u])
  then show "\<exists>z' G u. cutLeaf fuel' z L' = Inr z' \<and> parent (sheap z ! P') = Some G
              \<and> regrowthSpec (sheap z) (sheap z') L' P' G u ?N"
    using c G by blast
qed

theorem cut_frame_witness:
  "(wfT (heap chain3) (root chain3) chain3_tree \<and> 1 \<in> set (addrs chain3_tree) \<and> isLeaf chain3 1
      \<and> parent (heap chain3 ! 1) = Some 2 \<and> 2 \<noteq> root chain3 \<and> height chain3_tree < 5)
   \<and> (\<exists>s' G. chop 5 chain3 1 = Inr s' \<and> parent (heap chain3 ! 2) = Some G \<and> G \<noteq> 2
          \<and> frameSpec (heap chain3) (heap s') 1 2 G (if reducedGrowth chain3 then 1 else step chain3 + 1))
   \<and> (wfT (sheap balanced32) 14 balanced32_tree \<and> hydra balanced32 = Some 14
      \<and> 0 \<in> set (addrs balanced32_tree) \<and> isLeafS (sheap balanced32) 0
      \<and> parent (sheap balanced32 ! 0) = Some 2 \<and> 2 \<noteq> (14::nat) \<and> height balanced32_tree < 5)
   \<and> (\<exists>z' G. cutLeaf 5 balanced32 0 = Inr z' \<and> parent (sheap balanced32 ! 2) = Some G \<and> G \<noteq> 2
          \<and> frameSpec (sheap balanced32) (sheap z') 0 2 G (stored balanced32 (depth (sheap balanced32 ! 2)) + 1))"
  using cut_frame [of chain3 chain3_tree 1 2 5 balanced32 14 balanced32_tree 0 2 5]
    chain3_hyps balanced32_hyps
  by blast

theorem cut_regrows_copies_witness:
  "(wfT (heap chain3) (root chain3) chain3_tree \<and> 1 \<in> set (addrs chain3_tree) \<and> isLeaf chain3 1
      \<and> parent (heap chain3 ! 1) = Some 2 \<and> 2 \<noteq> root chain3 \<and> height chain3_tree < 5)
   \<and> (\<exists>s' G u. chop 5 chain3 1 = Inr s' \<and> parent (heap chain3 ! 2) = Some G
          \<and> regrowthSpec (heap chain3) (heap s') 1 2 G u (if reducedGrowth chain3 then 1 else step chain3 + 1))
   \<and> (wfT (sheap balanced32) 14 balanced32_tree \<and> hydra balanced32 = Some 14
      \<and> 0 \<in> set (addrs balanced32_tree) \<and> isLeafS (sheap balanced32) 0
      \<and> parent (sheap balanced32 ! 0) = Some 2 \<and> 2 \<noteq> (14::nat) \<and> height balanced32_tree < 5)
   \<and> (\<exists>z' G u. cutLeaf 5 balanced32 0 = Inr z' \<and> parent (sheap balanced32 ! 2) = Some G
          \<and> regrowthSpec (sheap balanced32) (sheap z') 0 2 G u (stored balanced32 (depth (sheap balanced32 ! 2)) + 1))"
  using cut_regrows_copies [of chain3 chain3_tree 1 2 5 balanced32 14 balanced32_tree 0 2 5]
    chain3_hyps balanced32_hyps
  by blast

text \<open>
  C2.  The turn counter of index.js.  \<open>step\<close> is 0 when the page has loaded and after
  every \<open>initHydra\<close>; every \<open>chop\<close> that returns has added exactly one to it, whatever
  node it was given; a cut under the root adds one to it and allocates nothing; and a
  cut with regrowth appends to the grandparent's children as many new nodes as \<open>step\<close>
  counts after the increment, or exactly one in reduced-growth mode.
\<close>

theorem turn_indexed_growth:
  "step initial = 0
   \<and> (initHydra fuel0 s0 len = Inr s1 \<longrightarrow> step s1 = 0)
   \<and> (chop fuel2 s2 L2 = Inr s3 \<longrightarrow> step s3 = step s2 + 1)
   \<and> (wfT (heap sr) (root sr) tr \<and> Lr \<in> set (addrs tr) \<and> isLeaf sr Lr
        \<and> parent (heap sr ! Lr) = Some (root sr) \<and> height tr < fuelr
       \<longrightarrow> (\<exists>s''. chop fuelr sr Lr = Inr s'' \<and> step s'' = step sr + 1
                \<and> length (heap s'') = length (heap sr)))
   \<and> (wfT (heap s) (root s) t \<and> L \<in> set (addrs t) \<and> isLeaf s L
        \<and> parent (heap s ! L) = Some P \<and> P \<noteq> root s \<and> height t < fuel
       \<longrightarrow> (\<exists>s'' G new. chop fuel s L = Inr s'' \<and> step s'' = step s + 1
                \<and> parent (heap s ! P) = Some G
                \<and> children (heap s'' ! G) = children (heap s ! G) @ new
                \<and> (\<forall>c \<in> set new. length (heap s) \<le> c)
                \<and> length new = (if reducedGrowth s then 1 else step s'')))"
proof (intro conjI impI)
  show "step initial = 0" by (simp add: initial_def)
next
  assume "initHydra fuel0 s0 len = Inr s1"
  then show "step s1 = 0" by (rule initHydra_step)
next
  assume "chop fuel2 s2 L2 = Inr s3"
  then show "step s3 = step s2 + 1" using chop_step by blast
next
  assume a: "wfT (heap sr) (root sr) tr \<and> Lr \<in> set (addrs tr) \<and> isLeaf sr Lr
        \<and> parent (heap sr ! Lr) = Some (root sr) \<and> height tr < fuelr"
  then have wf: "wfT (heap sr) (root sr) tr" and L: "Lr \<in> set (addrs tr)" and lf: "isLeaf sr Lr"
    and P: "parent (heap sr ! Lr) = Some (root sr)" and fu: "height tr < fuelr" by simp_all
  from chop_at_root [OF wf L lf P fu]
  show "\<exists>s''. chop fuelr sr Lr = Inr s'' \<and> step s'' = step sr + 1 \<and> length (heap s'') = length (heap sr)"
    by (auto simp: cutAtRoot_def)
next
  assume a: "wfT (heap s) (root s) t \<and> L \<in> set (addrs t) \<and> isLeaf s L
        \<and> parent (heap s ! L) = Some P \<and> P \<noteq> root s \<and> height t < fuel"
  then have wf: "wfT (heap s) (root s) t" and L: "L \<in> set (addrs t)" and lf: "isLeaf s L"
    and P: "parent (heap s ! L) = Some P" and Pr: "P \<noteq> root s" and fu: "height t < fuel" by simp_all
  let ?N = "if reducedGrowth s then 1 else step s + 1"
  from chop_regrow [OF wf L lf P Pr fu]
  obtain s'' G u where c: "chop fuel s L = Inr s''" and G: "parent (heap s ! P) = Some G"
    and cr: "cutRegrown (heap s) (heap s'') (root s) t L P G u ?N"
    and st: "step s'' = step s + 1" by blast
  let ?new = "map (\<lambda>j. length (heap s) + j * length (addrs u)) [0..<?N]"
  from cr have "children (heap s'' ! G) = children (heap s ! G) @ ?new" by (simp add: cutRegrown_def)
  moreover have "\<forall>c \<in> set ?new. length (heap s) \<le> c" by auto
  moreover have "length ?new = (if reducedGrowth s then 1 else step s'')" using st by simp
  ultimately show "\<exists>s'' G new. chop fuel s L = Inr s'' \<and> step s'' = step s + 1
                \<and> parent (heap s ! P) = Some G
                \<and> children (heap s'' ! G) = children (heap s ! G) @ new
                \<and> (\<forall>c \<in> set new. length (heap s) \<le> c)
                \<and> length new = (if reducedGrowth s then 1 else step s'')"
    using c G st by blast
qed

theorem turn_indexed_growth_witness:
  "(initHydra 5 initial 3 = Inr chain3 \<and> step chain3 = 0)
   \<and> (chop 5 chain3 1 = Inr chain3_cut \<and> step chain3_cut = step chain3 + 1)
   \<and> (wfT (heap chain1) (root chain1) (AT 0 [AT 1 []]) \<and> 1 \<in> set (addrs (AT 0 [AT 1 []]))
        \<and> isLeaf chain1 1 \<and> parent (heap chain1 ! 1) = Some (root chain1)
        \<and> height (AT 0 [AT 1 []]) < 5)
   \<and> (\<exists>s''. chop 5 chain1 1 = Inr s'' \<and> step s'' = step chain1 + 1
          \<and> length (heap s'') = length (heap chain1))
   \<and> (wfT (heap chain3) (root chain3) chain3_tree \<and> 1 \<in> set (addrs chain3_tree) \<and> isLeaf chain3 1
        \<and> parent (heap chain3 ! 1) = Some 2 \<and> 2 \<noteq> root chain3 \<and> height chain3_tree < 5)
   \<and> (\<exists>s'' G new. chop 5 chain3 1 = Inr s'' \<and> step s'' = step chain3 + 1
          \<and> parent (heap chain3 ! 2) = Some G
          \<and> children (heap s'' ! G) = children (heap chain3 ! G) @ new
          \<and> (\<forall>c \<in> set new. length (heap chain3) \<le> c)
          \<and> length new = (if reducedGrowth chain3 then 1 else step s''))"
  using turn_indexed_growth [where ?fuel0.0 = 5 and ?s0.0 = initial and len = 3 and ?s1.0 = chain3
      and ?fuel2.0 = 5 and ?s2.0 = chain3 and ?L2.0 = 1 and ?s3.0 = chain3_cut
      and sr = chain1 and tr = "AT 0 [AT 1 []]" and Lr = 1 and fuelr = 5
      and s = chain3 and t = chain3_tree and L = 1 and P = 2 and fuel = 5]
    chain3_eval(1,2) chain1_hyps chain3_hyps
  by blast

text \<open>
  C3.  The depth counters of script.js.  They are empty when the script starts and after
  every \<open>setHydra\<close>.  In a tree whose \<open>depth\<close> fields are right, a cut of a leaf whose
  parent \<open>P\<close> is not the root and stands at depth \<open>d\<close> (so \<open>d\<close> is at least 1) appends
  \<open>stored(d) + 1\<close> new nodes to the grandparent's children: one if nothing was stored for
  \<open>d\<close>, two if one was stored.  That number is then what is stored for \<open>d\<close>, the counts
  of all other depths are as before, and the store again holds a tree with the right
  \<open>depth\<close> fields.
\<close>

theorem depth_indexed_growth:
  "depthCounters initialS = Map.empty
   \<and> (setHydra fuel0 z0 r0 = Inr z1 \<longrightarrow> depthCounters z1 = Map.empty)
   \<and> (wfT (sheap z) r t \<and> hydra z = Some r \<and> depthsOk (sheap z) t 0
        \<and> L \<in> set (addrs t) \<and> isLeafS (sheap z) L \<and> parent (sheap z ! L) = Some P \<and> P \<noteq> r
        \<and> (P, d) \<in> set (levels t 0) \<and> height t < fuel
       \<longrightarrow> 1 \<le> d
           \<and> (\<exists>z' G new t'. cutLeaf fuel z L = Inr z' \<and> parent (sheap z ! P) = Some G
                \<and> children (sheap z' ! G) = children (sheap z ! G) @ new
                \<and> (\<forall>c \<in> set new. length (sheap z) \<le> c)
                \<and> length new = stored z d + 1
                \<and> (depthCounters z d = None \<longrightarrow> length new = 1)
                \<and> (depthCounters z d = Some 1 \<longrightarrow> length new = 2)
                \<and> stored z' d = stored z d + 1
                \<and> (\<forall>d'. d' \<noteq> d \<longrightarrow> depthCounters z' d' = depthCounters z d')
                \<and> wfT (sheap z') r t' \<and> hydra z' = Some r \<and> depthsOk (sheap z') t' 0))"
proof (intro conjI impI)
  show "depthCounters initialS = Map.empty" by (simp add: initialS_def)
next
  assume "setHydra fuel0 z0 r0 = Inr z1"
  then show "depthCounters z1 = Map.empty" using setHydra_counters by blast
next
  assume a: "wfT (sheap z) r t \<and> hydra z = Some r \<and> depthsOk (sheap z) t 0
        \<and> L \<in> set (addrs t) \<and> isLeafS (sheap z) L \<and> parent (sheap z ! L) = Some P \<and> P \<noteq> r
        \<and> (P, d) \<in> set (levels t 0) \<and> height t < fuel"
  then have "rootA t = r" by (simp add: wfT_def)
  then show "1 \<le> d" using a levels_nonroot [of P d t] by auto
next
  assume a: "wfT (sheap z) r t \<and> hydra z = Some r \<and> depthsOk (sheap z) t 0
        \<and> L \<in> set (addrs t) \<and> isLeafS (sheap z) L \<and> parent (sheap z ! L) = Some P \<and> P \<noteq> r
        \<and> (P, d) \<in> set (levels t 0) \<and> height t < fuel"
  then have wf: "wfT (sheap z) r t" and hy: "hydra z = Some r" and dk: "depthsOk (sheap z) t 0"
    and L: "L \<in> set (addrs t)" and lf: "isLeafS (sheap z) L" and P: "parent (sheap z ! L) = Some P"
    and Pr: "P \<noteq> r" and lv: "(P, d) \<in> set (levels t 0)" and fu: "height t < fuel" by simp_all
  have d: "depth (sheap z ! P) = d" using dk lv by (auto simp: depthsOk_def)
  let ?k = "stored z d + 1"
  from cutLeaf_regrow [OF wf hy L lf P Pr fu, of ?k] d
  obtain z' G u where c: "cutLeaf fuel z L = Inr z'" and G: "parent (sheap z ! P) = Some G"
    and cr: "cutRegrown (sheap z) (sheap z') r t L P G u ?k"
    and dp: "depthsOk (sheap z') (graftCopies G u (length (sheap z)) ?k (exciseT L t)) 0"
    and dc: "depthCounters z' = (depthCounters z)(d \<mapsto> ?k)"
    and hy': "hydra z' = hydra z" by (auto simp: stored_def)
  let ?new = "map (\<lambda>j. length (sheap z) + j * length (addrs u)) [0..<?k]"
  let ?t' = "graftCopies G u (length (sheap z)) ?k (exciseT L t)"
  from cr have 1: "children (sheap z' ! G) = children (sheap z ! G) @ ?new"
    and 2: "wfT (sheap z') r ?t'" by (simp_all add: cutRegrown_def)
  have 3: "\<forall>c \<in> set ?new. length (sheap z) \<le> c" by auto
  have 4: "length ?new = ?k" by simp
  have 5: "depthCounters z d = None \<longrightarrow> length ?new = 1"
    and 6: "depthCounters z d = Some 1 \<longrightarrow> length ?new = 2" by (auto simp: stored_def)
  have 7: "stored z' d = ?k" using dc by (simp add: stored_def)
  have 8: "\<forall>d'. d' \<noteq> d \<longrightarrow> depthCounters z' d' = depthCounters z d'" using dc by simp
  show "\<exists>z' G new t'. cutLeaf fuel z L = Inr z' \<and> parent (sheap z ! P) = Some G
                \<and> children (sheap z' ! G) = children (sheap z ! G) @ new
                \<and> (\<forall>c \<in> set new. length (sheap z) \<le> c)
                \<and> length new = stored z d + 1
                \<and> (depthCounters z d = None \<longrightarrow> length new = 1)
                \<and> (depthCounters z d = Some 1 \<longrightarrow> length new = 2)
                \<and> stored z' d = stored z d + 1
                \<and> (\<forall>d'. d' \<noteq> d \<longrightarrow> depthCounters z' d' = depthCounters z d')
                \<and> wfT (sheap z') r t' \<and> hydra z' = Some r \<and> depthsOk (sheap z') t' 0"
    using c G 1 2 3 4 5 6 7 8 dp hy hy' by (intro exI [of _ z'] exI [of _ G] exI [of _ ?new] exI [of _ ?t']) simp
qed

theorem depth_indexed_growth_witness:
  "(setHydra 5 balanced32 14 = Inr balanced32 \<and> depthCounters balanced32 = Map.empty)
   \<and> (wfT (sheap balanced32) 14 balanced32_tree \<and> hydra balanced32 = Some 14
        \<and> depthsOk (sheap balanced32) balanced32_tree 0
        \<and> 0 \<in> set (addrs balanced32_tree) \<and> isLeafS (sheap balanced32) 0
        \<and> parent (sheap balanced32 ! 0) = Some 2 \<and> 2 \<noteq> (14::nat)
        \<and> (2, 2) \<in> set (levels balanced32_tree 0) \<and> height balanced32_tree < 5)
   \<and> (\<exists>z' G new t'. cutLeaf 5 balanced32 0 = Inr z' \<and> parent (sheap balanced32 ! 2) = Some G
          \<and> children (sheap z' ! G) = children (sheap balanced32 ! G) @ new
          \<and> length new = stored balanced32 2 + 1
          \<and> stored z' 2 = stored balanced32 2 + 1
          \<and> (\<forall>d'. d' \<noteq> 2 \<longrightarrow> depthCounters z' d' = depthCounters balanced32 d')
          \<and> wfT (sheap z') 14 t' \<and> hydra z' = Some 14 \<and> depthsOk (sheap z') t' 0)"
proof -
  note h = balanced32_hyps balanced32_depths
  from depth_indexed_growth [where ?fuel0.0 = 5 and ?z0.0 = balanced32 and ?r0.0 = 14
      and ?z1.0 = balanced32 and z = balanced32 and r = 14 and t = balanced32_tree
      and L = 0 and P = 2 and d = 2 and fuel = 5] h balanced32_setHydra
  show ?thesis by blast
qed

text \<open>
  C5 fails as stated for index.js: \<open>chop\<close> has no guard.  Given the root it throws
  (\<open>P\<close> is null), and given n2 of the chain of length 3, which has the child n3, it
  counts a turn, cuts n2 with its subtree off n1 and regrows n1 under the root.
\<close>

theorem chop_unguarded_counterexample:
  "\<not> isLeaf chain3 0 \<and> chop 5 chain3 0 = Inl TypeError
   \<and> \<not> isLeaf chain3 2 \<and> chop 5 chain3 2 = Inr chain3_chop_n2
   \<and> step chain3_chop_n2 = step chain3 + 1 \<and> heap chain3_chop_n2 \<noteq> heap chain3"
  by code_simp

text \<open>
  C5 (as the code has it).  In script.js the cut itself rejects a node that is not a
  leaf or is the root: \<open>cutLeaf\<close> returns without an error and the whole state, tree,
  move counter and depth counters, is as before.  In index.js the guard is in the only
  caller of \<open>chop\<close>: \<open>handleClick\<close> either changes nothing or chops a node for which
  \<open>isLeaf\<close> holds.
\<close>

theorem invalid_target_guard:
  "(\<not> isLeafS (sheap z) L \<or> isRootS (sheap z) L \<longrightarrow> cutLeaf fuel z L = Inr z)
   \<and> (getAllNodes fuel' s = Inr nodes
       \<longrightarrow> handleClick fuel' s wx wy = Inr s
           \<or> (\<exists>n \<in> set nodes. isLeaf s n \<and> handleClick fuel' s wx wy = chop fuel' s n))"
proof (intro conjI impI)
  assume "\<not> isLeafS (sheap z) L \<or> isRootS (sheap z) L"
  then show "cutLeaf fuel z L = Inr z"
    by (auto simp: cutLeaf_def isRootS_def)
next
  assume g: "getAllNodes fuel' s = Inr nodes"
  let ?hit = "\<lambda>n. isLeaf s n \<and>
                          (wx - xpos (heap s ! n)) * (wx - xpos (heap s ! n))
                          + (wy - ypos (heap s ! n)) * (wy - ypos (heap s ! n))
                          < radius * radius"
  show "handleClick fuel' s wx wy = Inr s
           \<or> (\<exists>n \<in> set nodes. isLeaf s n \<and> handleClick fuel' s wx wy = chop fuel' s n)"
  proof (cases "find ?hit nodes")
    case None
    then show ?thesis using g by (simp add: handleClick_def)
  next
    case (Some n)
    then have "n \<in> set nodes" "isLeaf s n" by (auto simp: find_Some_iff)
    moreover have "handleClick fuel' s wx wy = chop fuel' s n" using g Some by (simp add: handleClick_def)
    ultimately show ?thesis by blast
  qed
qed

theorem invalid_target_guard_witness:
  "isRootS (sheap balanced32) 14
   \<and> cutLeaf 5 balanced32 14 = Inr balanced32
   \<and> getAllNodes 5 chain3 = Inr [0, 3, 2, 1]
   \<and> (handleClick 5 chain3 0 0 = Inr chain3
       \<or> (\<exists>n \<in> set [0, 3, 2, 1]. isLeaf chain3 n \<and> handleClick 5 chain3 0 0 = chop 5 chain3 n))"
  using invalid_target_guard [of balanced32 14 5 5 chain3 "[0, 3, 2, 1]" 0 0]
    balanced32_root guard_eval(1)
  by blast

text \<open>
  C7 fails as stated: the parent of n3 is n2, and the parent of n2 is n1, not the root,
  so the first cut regrows.  After it the store does not hold the chain root, n1, n2 and
  the root reaches four nodes, not three.
\<close>

theorem chain3_cut_counterexample:
  "initHydra 5 initial 3 = Inr chain3 \<and> chop 5 chain3 1 = Inr chain3_cut
   \<and> children (heap chain3_cut ! 3) \<noteq> [2]
   \<and> getAllNodes 5 chain3_cut \<noteq> Inr [0, 3, 2]
   \<and> getAllNodes 5 chain3_cut = Inr [0, 3, 2, 4]"
  by code_simp

text \<open>
  C7 (as the code has it).  The chain generator \<open>initHydra(3)\<close> gives root, n1, n2, n3 at
  addresses 0, 3, 2, 1.  Cutting n3 at turn 1 in normal growth mode removes n3 from n2
  and, as n2 is not the root, appends one copy of the now childless n2 to n1: the tree
  is the root over n1 over n2 and the copy, the move count is 1 and the node count 4.
\<close>

theorem chain3_cut_n3:
  "initHydra 5 initial 3 = Inr chain3
   \<and> wfT (heap chain3) (root chain3) (AT 0 [AT 3 [AT 2 [AT 1 []]]])
   \<and> parent (heap chain3 ! 1) = Some 2 \<and> parent (heap chain3 ! 2) = Some 3 \<and> 2 \<noteq> root chain3
   \<and> step chain3 = 0 \<and> \<not> reducedGrowth chain3
   \<and> chop 5 chain3 1 = Inr chain3_cut
   \<and> wfT (heap chain3_cut) (root chain3_cut) (AT 0 [AT 3 [AT 2 [], AT 4 []]])
   \<and> step chain3_cut = 1
   \<and> getAllNodes 5 chain3_cut = Inr [0, 3, 2, 4]"
proof -
  have 1: "initHydra 5 initial 3 = Inr chain3" "chop 5 chain3 1 = Inr chain3_cut"
    "getAllNodes 5 chain3_cut = Inr [0, 3, 2, 4]"
    by code_simp+
  have 2: "wfT (heap chain3) (root chain3) (AT 0 [AT 3 [AT 2 [AT 1 []]]])
     \<and> parent (heap chain3 ! 1) = Some 2 \<and> parent (heap chain3 ! 2) = Some 3 \<and> 2 \<noteq> root chain3
     \<and> step chain3 = 0 \<and> \<not> reducedGrowth chain3"
    by (simp add: wfT_def chain3_def)
  have 3: "wfT (heap chain3_cut) (root chain3_cut) (AT 0 [AT 3 [AT 2 [], AT 4 []]]) \<and> step chain3_cut = 1"
    by (simp add: wfT_def chain3_cut_def)
  show ?thesis using 1 2 3 by simp
qed

text \<open>
  C4, at the hydra that script.js shows when the page has loaded, for a drawing surface
  1000 wide.  The root 14 has the children 6 and 13, in this order; node 4 is a
  grandchild of 6.  \<open>computeLayout\<close> puts node 4 at x = 1160, to the right of its
  parent's sibling 13 at x = 720 and of the right edge of the surface, and it puts the
  three leaves 1, 3 and 7 at the same point: \<open>place\<close> gives every child a share of the
  whole width \<open>W - 120\<close>, not of the span it was given.
\<close>

theorem computeLayout_siblings_overlap:
  "children (sheap balanced32 ! 14) = [6, 13]
   \<and> children (sheap balanced32 ! 6) = [2, 5] \<and> children (sheap balanced32 ! 5) = [3, 4]
   \<and> layoutOf 5 (sheap balanced32) 1000 14 6 = Some (280, 130)
   \<and> layoutOf 5 (sheap balanced32) 1000 14 13 = Some (720, 130)
   \<and> layoutOf 5 (sheap balanced32) 1000 14 4 = Some (1160, 310)
   \<and> layoutOf 5 (sheap balanced32) 1000 14 1 = Some (720, 310)
   \<and> layoutOf 5 (sheap balanced32) 1000 14 3 = Some (720, 310)
   \<and> layoutOf 5 (sheap balanced32) 1000 14 7 = Some (720, 310)"
  by (simp add: layoutOf_def computeLayout_def balanced32_def cachedTotal_def LEVEL_GAP_def eval_nat_numeral)

text \<open>
  C9.  A play of index.js is a sequence of states in which every state whose root still
  has children is followed by the state that \<open>chop\<close> returns for one of its leaves.  From
  a store holding a finite tree, (1) every play reaches a state whose root has no
  children, whatever leaves are cut and whatever call depth each cut is given, and
  (2) a play never gets stuck before that: while the root has children some leaf can be
  cut, and \<open>chop\<close> returns.  The growth factor is the turn number (or 1 in the reduced
  mode, which the statement covers as well); no bound on the number of cuts is stated.
\<close>

theorem every_play_slays_the_hydra:
  "(wfT (heap (play 0)) (root (play 0)) t0
      \<and> (\<forall>n. \<not> slain (play n) \<longrightarrow> cutMove (play n) (play (Suc n)))
      \<longrightarrow> (\<exists>n. slain (play n)))
   \<and> (wfT (heap s) (root s) t \<and> \<not> slain s \<longrightarrow> (\<exists>s'. cutMove s s'))"
  using plays_end [of play t0] cut_possible [of s t] by blast

text \<open>
  The chain of length 2 that \<open>initHydra(2)\<close> builds is slain in three cuts: the first one
  (turn 1, under n1) grows one copy of n1, the other two are under the root.
\<close>

theorem every_play_slays_the_hydra_witness:
  "initHydra 5 initial 2 = Inr chain2
   \<and> \<not> reducedGrowth chain2
   \<and> wfT (heap (chain2_play 0)) (root (chain2_play 0)) chain2_tree
   \<and> \<not> slain (chain2_play 0)
   \<and> cutMove (chain2_play 0) (chain2_play 1)
   \<and> cutMove (chain2_play 1) (chain2_play 2)
   \<and> cutMove (chain2_play 2) (chain2_play 3)
   \<and> (\<exists>n. slain (chain2_play n))
   \<and> (\<exists>s'. cutMove chain2 s')"
proof -
  have p: "chain2_play 0 = chain2" "chain2_play 1 = chain2_cut1" "chain2_play 2 = chain2_cut2"
    "chain2_play 3 = chain2_cut3" by (simp_all add: chain2_play_def)
  have ns: "\<not> slain chain2" by (simp add: slain_def chain2_def)
  have wf: "wfT (heap (chain2_play 0)) (root (chain2_play 0)) chain2_tree"
    using chain2_wfT p(1) by simp
  note inst = every_play_slays_the_hydra [of chain2_play chain2_tree chain2 chain2_tree]
  have "\<exists>n. slain (chain2_play n)" using inst wf chain2_play_moves by blast
  moreover have "\<exists>s'. cutMove chain2 s'" using inst chain2_wfT ns by blast
  moreover have "\<not> reducedGrowth chain2" by (simp add: chain2_def)
  ultimately show ?thesis using chain2_eval(1) wf ns chain2_moves p by simp
qed

end
